theory Spec2Isabelle
  imports Complex_Main "HOL-Library.Multiset" "HOL-Library.Sublist"
begin

unbundle bit_operations_syntax

section \<open>Photo pairing engine of the report builder (app/web.py)\<close>

text \<open>
  Images are identified by their paths, which are strings. Python floats are read as
  reals: the only float arithmetic of the matcher is the quotient \<open>good / 200.0\<close>, every
  other use of a score is a comparison. Python integers are \<open>int\<close>.

  The calls into OpenCV, PIL, imagehash, python-docx, pathlib and the file system are not
  code of this repository. They are the fields of the record \<open>cv\<close>: a model of the
  libraries is passed to every function that calls them. Every \<open>raise\<close> of the
  repository's own code is a branch of the model, and so is an exception that a library
  raises while an image is fingerprinted or while the document is written: \<open>run_job\<close>
  catches both alike.
\<close>

type_synonym path = string

subsection \<open>Configuration and external libraries\<close>

text \<open>
  \<open>TOPK\<close> is \<open>int(os.getenv("FAST_TOPK", "5"))\<close> and \<open>RATIO\<close> is
  \<open>float(os.getenv("FAST_RATIO", "0.75"))\<close>: both are whatever the environment gives.
\<close>

record config =
  TOPK :: int
  RATIO :: real
  DATA_ROOT :: path

text \<open>
  \<open>load_images\<close> is the sorted listing of the image files of a folder, empty when the
  folder does not exist. \<open>phash\<close> is the 64-bit perceptual hash as an integer.
  \<open>imread_gray_resized\<close> gives \<open>None\<close> for an image that does not decode.
  \<open>detectAndCompute\<close> is ORB: the descriptor rows or \<open>None\<close>. \<open>knnMatch\<close> is
  \<open>BFMatcher.knnMatch\<close> with \<open>k = 2\<close>: \<open>None\<close> stands for \<open>cv2.error\<close>, which
  \<open>score_pair\<close> catches; otherwise there is one entry for each query row, \<open>Some (m, n)\<close>
  with the distances of the best and of the second best neighbour, \<open>None\<close> for a row with
  fewer than two neighbours.

  \<open>pjoin\<close> is the operator \<open>/\<close> of pathlib, read as a string. The last four fields
  are the exceptions that \<open>build_report\<close> does not catch, each the message of the
  exception or \<open>None\<close> when none is raised: \<open>decode_exn\<close> while \<open>phash\<close>,
  \<open>imread_gray_resized\<close> and \<open>detectAndCompute\<close> run on an image (the values of these
  three fields are read only when it is \<open>None\<close>); \<open>first_page_exn\<close> while the document
  is created and its header, title and first four tables are written; \<open>next_page_exn\<close>
  while the page that starts at a given pair is written; \<open>doc_save_exn\<close> while the
  document is saved.
\<close>

record ('i, 'd) cv =
  load_images :: "path \<Rightarrow> path list"
  phash :: "path \<Rightarrow> int"
  imread_gray_resized :: "path \<Rightarrow> 'i option"
  detectAndCompute :: "'i \<Rightarrow> 'd list option"
  knnMatch :: "'d list \<Rightarrow> 'd list \<Rightarrow> (real \<times> real) option list option"
  pjoin :: "path \<Rightarrow> string \<Rightarrow> path"
  decode_exn :: "path \<Rightarrow> string option"
  first_page_exn :: "(path \<times> path \<times> real) list \<Rightarrow> string option"
  next_page_exn :: "(path \<times> path \<times> real) list \<Rightarrow> nat \<Rightarrow> string option"
  doc_save_exn :: "(path \<times> path \<times> real) list \<Rightarrow> path \<Rightarrow> string option"

subsection \<open>Fingerprint distance\<close>

text \<open>\<open>bin(x).count("1")\<close>: the number of one bits of the magnitude of \<open>x\<close>.\<close>

fun count_ones :: "nat \<Rightarrow> nat" where
  "count_ones n = (if n = 0 then 0 else n mod 2 + count_ones (n div 2))"

declare count_ones.simps [simp del]

definition hamming :: "int \<Rightarrow> int \<Rightarrow> nat" where
  "hamming a b = count_ones (nat \<bar>a XOR b\<bar>)"

subsection \<open>Similarity score\<close>

text \<open>The loop of \<open>score_pair\<close> over the rows that \<open>knnMatch\<close> returns.\<close>

fun count_good :: "real \<Rightarrow> (real \<times> real) option list \<Rightarrow> nat" where
  "count_good ratio [] = 0"
| "count_good ratio (None # matches) = count_good ratio matches"
| "count_good ratio (Some (m, n) # matches) =
     (if m < ratio * n then 1 else 0) + count_good ratio matches"

definition score_pair ::
  "('i, 'd) cv \<Rightarrow> config \<Rightarrow> 'd list option \<Rightarrow> 'd list option \<Rightarrow> real" where
  "score_pair lib cfg des_a des_b =
     (case (des_a, des_b) of
        (Some da, Some db) \<Rightarrow>
          if length da = 0 \<or> length db = 0 then 0
          else (case knnMatch lib da db of
                  None \<Rightarrow> 0
                | Some matches \<Rightarrow> min 1 (real (count_good (RATIO cfg) matches) / 200))
      | _ \<Rightarrow> 0)"

subsection \<open>Candidates of one before-image\<close>

text \<open>
  \<open>used\<close> is the dictionary \<open>{j: True}\<close> of \<open>build_report\<close>; \<open>used.get(j)\<close> is truthy
  exactly when the key is there with the value \<open>True\<close>.
\<close>

type_synonym used = "nat \<rightharpoonup> bool"

definition used_get :: "used \<Rightarrow> nat \<Rightarrow> bool" where
  "used_get u j = (u j = Some True)"

text \<open>
  Lines 121 to 123 of \<open>build_report\<close>: the distances of the unused after-images in
  index order, the stable sort by distance, and the indices of the first
  \<open>max(1, TOPK)\<close> entries.
\<close>

definition dlist :: "int \<Rightarrow> (path \<times> int) list \<Rightarrow> used \<Rightarrow> (nat \<times> nat) list" where
  "dlist h af_items u =
     map (\<lambda>(j, (_, aph)). (j, hamming h aph))
       (filter (\<lambda>(j, _). \<not> used_get u j) (enumerate 0 af_items))"

definition cand :: "config \<Rightarrow> int \<Rightarrow> (path \<times> int) list \<Rightarrow> used \<Rightarrow> nat list" where
  "cand cfg h af_items u =
     map fst (take (nat (max 1 (TOPK cfg))) (sort_key snd (dlist h af_items u)))"

subsection \<open>Best candidate\<close>

text \<open>
  Lines 124 to 129: \<open>best_j, best_s = None, -1.0\<close>, then every candidate in order
  replaces the best one only when its score is strictly greater.
\<close>

definition best :: "(nat \<Rightarrow> real) \<Rightarrow> nat list \<Rightarrow> nat option \<times> real" where
  "best score js =
     fold (\<lambda>j (best_j, best_s). let s = score j in
             if s > best_s then (Some j, s) else (best_j, best_s))
       js (None, - 1)"

subsection \<open>The matching loop\<close>

text \<open>
  The progress dictionary of a job (\<open>done_count\<close> is its key \<open>done\<close>). \<open>download\<close> and
  \<open>error\<close> are the keys that are absent until the job ends.
\<close>

record progress =
  state :: string
  done_count :: int
  total :: int
  matched :: int
  unmatched :: int
  before :: int
  after :: int
  pages :: int
  download :: "string option"
  error :: "string option"

record mstate =
  pairs :: "(path \<times> path \<times> real) list"
  used :: used
  prog :: progress

text \<open>
  The body of the loop, lines 121 to 140, for the before-image \<open>b\<close> at index \<open>idx\<close>.
  \<open>be_desc\<close> and \<open>af_desc\<close> are read at keys that the fingerprinting loops have
  written, so they are functions here.
\<close>

definition match_step ::
  "('i, 'd) cv \<Rightarrow> config \<Rightarrow> real \<Rightarrow> path list \<Rightarrow> int list \<Rightarrow> int list \<Rightarrow>
   (path \<Rightarrow> 'd list option) \<Rightarrow> (path \<Rightarrow> 'd list option) \<Rightarrow>
   nat \<times> path \<Rightarrow> mstate \<Rightarrow> mstate" where
  "match_step lib cfg threshold afters be_ph af_ph be_desc af_desc ib st =
     (let idx = fst ib; b = snd ib;
          af_items = zip afters af_ph;
          c = cand cfg (be_ph ! idx) af_items (used st);
          (best_j, best_s) =
             best (\<lambda>j. score_pair lib cfg (be_desc b) (af_desc (fst (af_items ! j)))) c;
          st' =
            (if best_j \<noteq> None \<and> best_s \<ge> threshold then
               st\<lparr>used := (used st)(the best_j \<mapsto> True),
                  pairs := pairs st @ [(b, afters ! the best_j, best_s)],
                  prog := (prog st)\<lparr>matched := matched (prog st) + 1\<rparr>\<rparr>
             else if idx < length afters \<and> \<not> used_get (used st) idx then
               st\<lparr>used := (used st)(idx \<mapsto> True),
                  pairs := pairs st @ [(b, afters ! idx, - 1)],
                  prog := (prog st)\<lparr>unmatched := unmatched (prog st) + 1\<rparr>\<rparr>
             else st)
      in st'\<lparr>prog := (prog st')\<lparr>done_count := int idx + 1\<rparr>\<rparr>)"

definition match_loop ::
  "('i, 'd) cv \<Rightarrow> config \<Rightarrow> real \<Rightarrow> path list \<Rightarrow> path list \<Rightarrow> int list \<Rightarrow> int list \<Rightarrow>
   (path \<Rightarrow> 'd list option) \<Rightarrow> (path \<Rightarrow> 'd list option) \<Rightarrow> progress \<Rightarrow> mstate" where
  "match_loop lib cfg threshold befores afters be_ph af_ph be_desc af_desc p =
     fold (match_step lib cfg threshold afters be_ph af_ph be_desc af_desc)
       (enumerate 0 befores)
       \<lparr>pairs = [], used = Map.empty, prog = p\<rparr>"

text \<open>
  The order on (index, distance) entries that the stable sort of \<open>dlist\<close> produces:
  smaller distance first, smaller index first among equal distances.
\<close>

definition nearer :: "nat \<times> nat \<Rightarrow> nat \<times> nat \<Rightarrow> bool" where
  "nearer a b = (snd a < snd b \<or> (snd a = snd b \<and> fst a < fst b))"

subsection \<open>The report of one job\<close>

text \<open>
  The page loop after the matching, as far as it writes the progress dictionary: the
  first four pairs are on the first page, and \<open>pages\<close> is written once for every further
  page of four, after that page is written. The result is the dictionary and the message
  of the exception that ended the loop, if one did.
\<close>

function pages_loop ::
  "('i, 'd) cv \<Rightarrow> (path \<times> path \<times> real) list \<Rightarrow> nat \<Rightarrow> int \<Rightarrow> progress \<Rightarrow>
   progress \<times> string option" where
  "pages_loop lib ps idx pg p =
     (if idx < length ps then
        (case next_page_exn lib ps idx of
           Some e \<Rightarrow> (p, Some e)
         | None \<Rightarrow> pages_loop lib ps (idx + 4) (pg + 1) (p\<lparr>pages := pg + 1\<rparr>))
      else (p, None))"
  by pat_completeness auto
termination
  by (relation "measure (\<lambda>(lib, ps, idx, pg, p). length ps - idx)") auto

declare pages_loop.simps [simp del]

definition render_pages ::
  "('i, 'd) cv \<Rightarrow> (path \<times> path \<times> real) list \<Rightarrow> progress \<Rightarrow> progress \<times> string option" where
  "render_pages lib ps p = (if length ps > 4 then pages_loop lib ps 4 1 p else (p, None))"

text \<open>The descriptor that the fingerprinting loops store for an image.\<close>

definition descriptor :: "('i, 'd) cv \<Rightarrow> path \<Rightarrow> 'd list option" where
  "descriptor lib p =
     (case imread_gray_resized lib p of None \<Rightarrow> None | Some arr \<Rightarrow> detectAndCompute lib arr)"

text \<open>
  The two fingerprinting loops take the images in order, the before-images first: the
  first exception that is raised ends them.
\<close>

fun first_exn :: "(path \<Rightarrow> string option) \<Rightarrow> path list \<Rightarrow> string option" where
  "first_exn f [] = None"
| "first_exn f (p # ps) = (case f p of Some e \<Rightarrow> Some e | None \<Rightarrow> first_exn f ps)"

text \<open>
  \<open>build_report\<close> mutates the progress dictionary it is given and either returns or
  raises: the result is the dictionary as it is left and the message of the exception,
  if one was raised. The labels \<open>company\<close>, \<open>zone\<close> and \<open>title\<close> only reach the layout
  of the document.
\<close>

definition build_report ::
  "('i, 'd) cv \<Rightarrow> config \<Rightarrow> path \<Rightarrow> path \<Rightarrow> real \<Rightarrow> progress \<Rightarrow> progress \<times> string option" where
  "build_report lib cfg input_root out_path threshold p =
     (let before_dir = pjoin lib input_root ''before'';
          after_dir = pjoin lib input_root ''after'';
          befores = load_images lib before_dir;
          afters = load_images lib after_dir;
          p1 = p\<lparr>total := int (length befores), state := ''preprocess'', done_count := 0,
                 before := int (length befores), after := int (length afters)\<rparr>
      in if befores = [] \<or> afters = [] then (p1, Some ''No images in before/ or after/'')
         else
           (case first_exn (decode_exn lib) (befores @ afters) of
              Some e \<Rightarrow> (p1, Some e)
            | None \<Rightarrow>
                let be_ph = map (phash lib) befores;
                    af_ph = map (phash lib) afters;
                    p2 = p1\<lparr>state := ''matching'', done_count := 0, matched := 0, unmatched := 0\<rparr>;
                    st = match_loop lib cfg threshold befores afters be_ph af_ph
                           (descriptor lib) (descriptor lib) p2
                in (case first_page_exn lib (pairs st) of
                      Some e \<Rightarrow> (prog st, Some e)
                    | None \<Rightarrow>
                        (case render_pages lib (pairs st) (prog st) of
                           (p3, Some e) \<Rightarrow> (p3, Some e)
                         | (p3, None) \<Rightarrow>
                             (case doc_save_exn lib (pairs st) out_path of
                                Some e \<Rightarrow> (p3, Some e)
                              | None \<Rightarrow>
                                  (p3\<lparr>state := ''done'', download := Some out_path\<rparr>, None))))))"

subsection \<open>Jobs and their progress channel\<close>

text \<open>
  \<open>JOBS[job_id]\<close> and \<open>EVENTS[job_id]\<close> are written together by \<open>start\<close> and never
  removed: a job is its progress dictionary and the content of its queue, oldest message
  first. A message is the dictionary as it was when \<open>push\<close> serialised it.
\<close>

record job =
  job_rec :: progress
  job_queue :: "progress list"

record job_args =
  a_job_id :: string
  a_month :: string
  a_site :: string
  a_task :: string
  a_company :: string
  a_zone :: string
  a_title :: string
  a_threshold :: real

definition push :: "job \<Rightarrow> job" where
  "push j = j\<lparr>job_queue := job_queue j @ [job_rec j]\<rparr>"

definition REPORT_ROOT :: path where
  "REPORT_ROOT = ''/data/reports''"

definition run_job :: "('i, 'd) cv \<Rightarrow> config \<Rightarrow> job_args \<Rightarrow> job \<Rightarrow> job" where
  "run_job lib cfg a j =
     (let j1 = push (j\<lparr>job_rec := (job_rec j)\<lparr>state := ''starting'', done_count := 0, total := 0\<rparr>\<rparr>);
          input_root = pjoin lib (pjoin lib (pjoin lib (DATA_ROOT cfg) (a_month a)) (a_site a))
            (a_task a);
          out_name = a_month a @ ''_'' @ a_site a @ ''_'' @
            (if a_task a = ''grass_cutting'' then ''grass_cutting'' else ''drainage'') @ ''.docx'';
          out_path = pjoin lib REPORT_ROOT out_name;
          (p, exn) = build_report lib cfg input_root out_path (a_threshold a) (job_rec j1)
      in case exn of
           None \<Rightarrow> push (j1\<lparr>job_rec := p\<rparr>)
         | Some e \<Rightarrow> push (j1\<lparr>job_rec := p\<lparr>state := ''error'', error := Some e\<rparr>\<rparr>))"

subsection \<open>Submission\<close>

definition form_get :: "(string \<rightharpoonup> string) \<Rightarrow> string \<Rightarrow> string \<Rightarrow> string" where
  "form_get form k d = (case form k of None \<Rightarrow> d | Some v \<Rightarrow> v)"

text \<open>
  The answer of \<open>start\<close>: the JSON body with \<open>ok: True\<close> and the job id, the JSON body
  with \<open>ok: False\<close>, a message and a status code, or the failure of the request when
  \<open>float\<close> raises \<open>ValueError\<close>.
\<close>

datatype response = Json_ok string | Json_error string nat | Unhandled_ValueError

record server =
  jobs :: "string \<rightharpoonup> job"
  threads :: "job_args list"

definition queued :: progress where
  "queued = \<lparr>state = ''queued'', done_count = 0, total = 0, matched = 0, unmatched = 0,
     before = 0, after = 0, pages = 0, download = None, error = None\<rparr>"

text \<open>
  \<open>py_strip\<close> is Python's \<open>str.strip\<close>, \<open>py_float\<close> is Python's \<open>float\<close> on a
  string (\<open>None\<close> when it raises) and \<open>new_id\<close> is the value of \<open>uuid.uuid4().hex\<close>. \<open>threads\<close> collects the arguments of the
  worker threads that were started. The values \<open>nan\<close> and \<open>inf\<close>, which \<open>float\<close> also
  returns, are not real numbers and are left out.
\<close>

definition start ::
  "(string \<Rightarrow> string) \<Rightarrow> (string \<Rightarrow> real option) \<Rightarrow> string \<Rightarrow> (string \<rightharpoonup> string) \<Rightarrow>
   server \<Rightarrow> response \<times> server" where
  "start py_strip py_float new_id form s =
     (let month = py_strip (form_get form ''month'' []);
          site = py_strip (form_get form ''site'' []);
          task = py_strip (form_get form ''task'' ''grass_cutting'');
          company = py_strip (form_get form ''company'' ''HW UNGGUL (901587-V)'');
          zone = py_strip (form_get form ''zone'' (site @ '' ZONE''));
          title = py_strip (form_get form ''title''
            (if task = ''grass_cutting'' then ''1. Grass Cutting'' else ''2. Drainage Cleaning''))
      in case py_float (form_get form ''threshold'' ''0.70'') of
           None \<Rightarrow> (Unhandled_ValueError, s)
         | Some threshold \<Rightarrow>
             if month = [] \<or> site = [] then
               (Json_error ''Please choose a month and a site'' 400, s)
             else
               (Json_ok new_id,
                s\<lparr>jobs := (jobs s)(new_id \<mapsto> \<lparr>job_rec = queued, job_queue = []\<rparr>),
                  threads := threads s @
                    [\<lparr>a_job_id = new_id, a_month = month, a_site = site, a_task = task,
                      a_company = company, a_zone = zone, a_title = title,
                      a_threshold = threshold\<rparr>]\<rparr>))"

subsection \<open>Observers\<close>

text \<open>
  \<open>sse_stream\<close> is a generator on the queue of the job. Its first step yields the ping
  frame; every later step takes the oldest message from the queue with \<open>q.get()\<close> and
  yields it, and waits while the queue is empty. \<open>Put m\<close> is the \<open>q.put\<close> of \<open>push\<close>,
  \<open>Next k\<close> is one step of the generator of observer \<open>k\<close>; \<open>sent c k\<close> are the frames
  observer \<open>k\<close> has been sent so far. \<open>Queue.put\<close> and \<open>Queue.get\<close> are atomic, so a run
  of the worker and the observers is a schedule: a list of such steps in the order they
  take effect.
\<close>

datatype 'm frame = Ping | Data 'm

datatype 'm action = Put 'm | Next nat

record 'm channel =
  chan_queue :: "'m list"
  sent :: "nat \<Rightarrow> 'm frame list"

fun sse_step :: "'m action \<Rightarrow> 'm channel \<Rightarrow> 'm channel" where
  "sse_step (Put m) c = c\<lparr>chan_queue := chan_queue c @ [m]\<rparr>"
| "sse_step (Next k) c =
     (if sent c k = [] then c\<lparr>sent := (sent c)(k := [Ping])\<rparr>
      else (case chan_queue c of
              [] \<Rightarrow> c
            | m # q \<Rightarrow> c\<lparr>chan_queue := q, sent := (sent c)(k := sent c k @ [Data m])\<rparr>))"

definition sse_run :: "'m action list \<Rightarrow> 'm channel" where
  "sse_run sched = fold sse_step sched \<lparr>chan_queue = [], sent = (\<lambda>k. [])\<rparr>"

text \<open>
  The messages of a schedule in the order they are put, the observers that take a step
  in it, and the data of some frames.
\<close>

fun puts :: "'m action list \<Rightarrow> 'm list" where
  "puts [] = []"
| "puts (Put m # sched) = m # puts sched"
| "puts (Next k # sched) = puts sched"

fun observers :: "'m action list \<Rightarrow> nat list" where
  "observers [] = []"
| "observers (Put m # sched) = observers sched"
| "observers (Next k # sched) = k # observers sched"

fun datas :: "'m frame list \<Rightarrow> 'm list" where
  "datas [] = []"
| "datas (Ping # fs) = datas fs"
| "datas (Data m # fs) = m # datas fs"

section \<open>The command-line report builder (app/report_menu_table.py)\<close>

text \<open>
  \<open>orb_score\<close> runs inside \<open>try\<close> and answers \<open>0.0\<close> to every exception, so for each
  library call \<open>None\<close> stands for the Python value \<open>None\<close> and for a raised exception
  alike. \<open>bf_match\<close> gives the distances of the cross-checked matches.
\<close>

record ('i, 'd) cv_table =
  imdecode :: "path \<Rightarrow> 'i option"
  orb_detect :: "'i \<Rightarrow> 'd option"
  bf_match :: "'d \<Rightarrow> 'd \<Rightarrow> real list option"

definition orb_score :: "('i, 'd) cv_table \<Rightarrow> path \<Rightarrow> path \<Rightarrow> real" where
  "orb_score lib a_path b_path =
     (case (imdecode lib a_path, imdecode lib b_path) of
        (Some a, Some b) \<Rightarrow>
          (case (orb_detect lib a, orb_detect lib b) of
             (Some da, Some db) \<Rightarrow>
               (case bf_match lib da db of
                  None \<Rightarrow> 0
                | Some dists \<Rightarrow>
                    if dists = [] then 0
                    else max 0 (1 - (sum_list dists / real (length dists)) / 128))
           | _ \<Rightarrow> 0)
      | _ \<Rightarrow> 0)"

text \<open>
  The inner loop of \<open>best_pairs\<close>: every after-image whose index is not in \<open>used\<close> is
  scored against \<open>b\<close>, and replaces the best one only when its score is strictly greater.
\<close>

definition best_unused ::
  "('i, 'd) cv_table \<Rightarrow> path \<Rightarrow> path list \<Rightarrow> nat set \<Rightarrow> nat option \<times> real" where
  "best_unused lib b afters used_set =
     fold (\<lambda>(j, a) (best_j, best_s).
             if j \<in> used_set then (best_j, best_s)
             else let s = orb_score lib b a in
               if s > best_s then (Some j, s) else (best_j, best_s))
       (enumerate 0 afters) (None, - 1)"

text \<open>The body of the outer loop on the pair list and the set \<open>used\<close>.\<close>

definition best_pairs_step ::
  "('i, 'd) cv_table \<Rightarrow> real \<Rightarrow> path list \<Rightarrow> nat \<times> path \<Rightarrow>
   (path \<times> path \<times> real) list \<times> nat set \<Rightarrow> (path \<times> path \<times> real) list \<times> nat set" where
  "best_pairs_step lib threshold afters ib acc =
     (let bi = fst ib; b = snd ib; ps = fst acc; used_set = snd acc;
          (best_j, best_s) = best_unused lib b afters used_set
      in if best_j \<noteq> None \<and> best_s \<ge> threshold then
           (ps @ [(b, afters ! the best_j, best_s)], insert (the best_j) used_set)
         else if bi < length afters \<and> bi \<notin> used_set then
           (ps @ [(b, afters ! bi, - 1)], insert bi used_set)
         else (ps, used_set))"

definition best_pairs_loop ::
  "('i, 'd) cv_table \<Rightarrow> path list \<Rightarrow> path list \<Rightarrow> real \<Rightarrow>
   (path \<times> path \<times> real) list \<times> nat set" where
  "best_pairs_loop lib befores afters threshold =
     fold (best_pairs_step lib threshold afters) (enumerate 0 befores) ([], {})"

definition best_pairs ::
  "('i, 'd) cv_table \<Rightarrow> path list \<Rightarrow> path list \<Rightarrow> real \<Rightarrow> (path \<times> path \<times> real) list" where
  "best_pairs lib befores afters threshold = fst (best_pairs_loop lib befores afters threshold)"

section \<open>Vocabulary of the properties\<close>

text \<open>
  The integer entries of a progress dictionary, and the before-images that are the
  first component of no pair.
\<close>

definition counters :: "progress \<Rightarrow> int list" where
  "counters p = [done_count p, total p, matched p, unmatched p, before p, after p, pages p]"

definition unpaired :: "path list \<Rightarrow> (path \<times> path \<times> real) list \<Rightarrow> path list" where
  "unpaired befores ps = filter (\<lambda>b. b \<notin> fst ` set ps) befores"

text \<open>
  The fingerprint distance of after-image \<open>j\<close> from the hash \<open>h\<close>, and the after-indices
  that are not used, in ascending order.
\<close>

definition fp_dist :: "int \<Rightarrow> (path \<times> int) list \<Rightarrow> nat \<Rightarrow> nat" where
  "fp_dist h af_items j = hamming h (snd (af_items ! j))"

definition unused :: "(path \<times> int) list \<Rightarrow> used \<Rightarrow> nat list" where
  "unused af_items u = filter (\<lambda>j. \<not> used_get u j) [0..<length af_items]"

text \<open>
  The candidate list and the best candidate that the body of the matching loop computes
  for the before-image \<open>b\<close> at index \<open>idx\<close> in the state \<open>st\<close>.
\<close>

definition step_cand ::
  "config \<Rightarrow> path list \<Rightarrow> int list \<Rightarrow> int list \<Rightarrow> nat \<Rightarrow> mstate \<Rightarrow> nat list" where
  "step_cand cfg afters be_ph af_ph idx st =
     cand cfg (be_ph ! idx) (zip afters af_ph) (used st)"

definition step_best ::
  "('i, 'd) cv \<Rightarrow> config \<Rightarrow> path list \<Rightarrow> int list \<Rightarrow> int list \<Rightarrow>
   (path \<Rightarrow> 'd list option) \<Rightarrow> (path \<Rightarrow> 'd list option) \<Rightarrow>
   nat \<times> path \<Rightarrow> mstate \<Rightarrow> nat option \<times> real" where
  "step_best lib cfg afters be_ph af_ph be_desc af_desc ib st =
     best (\<lambda>j. score_pair lib cfg (be_desc (snd ib)) (af_desc (fst (zip afters af_ph ! j))))
       (step_cand cfg afters be_ph af_ph (fst ib) st)"

text \<open>
  Invariants of the two matching loops. \<open>assigned\<close>: the after-images of the pairs are
  the after-images at pairwise distinct indices, all marked used. \<open>scored\<close>: a pair has
  the sentinel score or a score that is at least the threshold and not negative, and the
  counters \<open>matched\<close> and \<open>unmatched\<close> have grown by the number of pairs of either kind.
\<close>

definition assigned :: "path list \<Rightarrow> (path \<times> path \<times> real) list \<Rightarrow> (nat \<Rightarrow> bool) \<Rightarrow> bool" where
  "assigned afters ps is_used =
     (\<exists>js. distinct js \<and> (\<forall>j\<in>set js. j < length afters \<and> is_used j) \<and>
           map (fst \<circ> snd) ps = map ((!) afters) js)"

definition scored :: "real \<Rightarrow> int \<Rightarrow> int \<Rightarrow> mstate \<Rightarrow> bool" where
  "scored threshold m0 u0 st =
     ((\<forall>(b, a, s)\<in>set (pairs st). s = - 1 \<or> (threshold \<le> s \<and> 0 \<le> s)) \<and>
      matched (prog st) = m0 + int (length (filter (\<lambda>(b, a, s). s \<noteq> - 1) (pairs st))) \<and>
      unmatched (prog st) = u0 + int (length (filter (\<lambda>(b, a, s). s = - 1) (pairs st))))"

text \<open>
  The two collections that the worker of a job loads, and the pairing it computes from
  them (the pairing does not depend on the progress dictionary).
\<close>

definition job_befores :: "('i, 'd) cv \<Rightarrow> config \<Rightarrow> job_args \<Rightarrow> path list" where
  "job_befores lib cfg a =
     load_images lib
       (pjoin lib (pjoin lib (pjoin lib (pjoin lib (DATA_ROOT cfg) (a_month a)) (a_site a))
          (a_task a)) ''before'')"

definition job_afters :: "('i, 'd) cv \<Rightarrow> config \<Rightarrow> job_args \<Rightarrow> path list" where
  "job_afters lib cfg a =
     load_images lib
       (pjoin lib (pjoin lib (pjoin lib (pjoin lib (DATA_ROOT cfg) (a_month a)) (a_site a))
          (a_task a)) ''after'')"

definition job_pairs :: "('i, 'd) cv \<Rightarrow> config \<Rightarrow> job_args \<Rightarrow> (path \<times> path \<times> real) list" where
  "job_pairs lib cfg a =
     pairs (match_loop lib cfg (a_threshold a) (job_befores lib cfg a) (job_afters lib cfg a)
       (map (phash lib) (job_befores lib cfg a)) (map (phash lib) (job_afters lib cfg a))
       (descriptor lib) (descriptor lib) queued)"

text \<open>
  The invariant of the channel: the messages put so far are the messages taken from the
  queue followed by the queue; the messages taken are, as a multiset, the data sent to
  the observers; every observer has been sent a subsequence of the messages taken; and
  an observer that has taken no step has been sent nothing.
\<close>

definition chan_inv :: "'m action list \<Rightarrow> 'm channel \<Rightarrow> 'm list \<Rightarrow> bool" where
  "chan_inv sched c del =
     (puts sched = del @ chan_queue c \<and>
      (\<Sum>k\<in>set (observers sched). mset (datas (sent c k))) = mset del \<and>
      (\<forall>k. subseq (datas (sent c k)) del) \<and>
      (\<forall>k. k \<notin> set (observers sched) \<longrightarrow> sent c k = []))"

section \<open>A worked job\<close>

text \<open>
  Four before-images and three after-images. \<open>b0.jpg\<close> resembles \<open>a1.jpg\<close> (180 good
  matches, score 0.9), \<open>b1.jpg\<close> resembles \<open>a0.jpg\<close> weakly (60 good matches, score 0.3),
  and no other two images have a good match. The after-images have the hashes 3, 1 and 1,
  the before-images the hash 0. The path components of this job are relative and plain,
  so \<open>/\<close> puts a slash between them, and no library raises an exception.
\<close>

definition ex_cfg :: config where
  "ex_cfg = \<lparr>TOPK = 2, RATIO = 3 / 4, DATA_ROOT = ''/data/photos''\<rparr>"

definition ex_befores :: "path list" where
  "ex_befores = [''b0.jpg'', ''b1.jpg'', ''b2.jpg'', ''b3.jpg'']"

definition ex_afters :: "path list" where
  "ex_afters = [''a0.jpg'', ''a1.jpg'', ''a2.jpg'']"

definition ex_lib :: "(path, path) cv" where
  "ex_lib =
     \<lparr>load_images = (\<lambda>p.
        if p = ''/data/photos/2024-05/ALPHA/grass_cutting/before'' then ex_befores
        else if p = ''/data/photos/2024-05/ALPHA/grass_cutting/after'' then ex_afters
        else []),
      phash = (\<lambda>p. if p = ''a0.jpg'' then 3 else if p = ''a1.jpg'' \<or> p = ''a2.jpg'' then 1 else 0),
      imread_gray_resized = (\<lambda>p. Some p),
      detectAndCompute = (\<lambda>i. Some [i]),
      knnMatch = (\<lambda>da db.
        if da = [''b0.jpg''] \<and> db = [''a1.jpg''] then Some (replicate 180 (Some (1, 2)))
        else if da = [''b1.jpg''] \<and> db = [''a0.jpg''] then Some (replicate 60 (Some (1, 2)))
        else Some [Some (2, 1), None]),
      pjoin = (\<lambda>a b. a @ ''/'' @ b),
      decode_exn = (\<lambda>p. None),
      first_page_exn = (\<lambda>ps. None),
      next_page_exn = (\<lambda>ps idx. None),
      doc_save_exn = (\<lambda>ps out. None)\<rparr>"

definition ex_items :: "(path \<times> int) list" where
  "ex_items = zip ex_afters (map (phash ex_lib) ex_afters)"

definition ex_args :: job_args where
  "ex_args = \<lparr>a_job_id = ''job1'', a_month = ''2024-05'', a_site = ''ALPHA'',
     a_task = ''grass_cutting'', a_company = ''HW UNGGUL (901587-V)'', a_zone = ''ALPHA ZONE'',
     a_title = ''1. Grass Cutting'', a_threshold = 7 / 10\<rparr>"

text \<open>The state of the matching loop of this job after its first \<open>n\<close> before-images.\<close>

definition ex_state :: "nat \<Rightarrow> mstate" where
  "ex_state n =
     fold (match_step ex_lib ex_cfg (7 / 10) ex_afters
             (map (phash ex_lib) ex_befores) (map (phash ex_lib) ex_afters)
             (descriptor ex_lib) (descriptor ex_lib))
       (take n (enumerate 0 ex_befores))
       \<lparr>pairs = [], used = Map.empty, prog = queued\<rparr>"

text \<open>
  The same images for the command-line builder: the matches of \<open>b0.jpg\<close> and \<open>a1.jpg\<close>
  have the mean distance 12.8 (score 0.9), all other matches the distance 128 (score 0).
\<close>

definition ex_table :: "(path, path) cv_table" where
  "ex_table =
     \<lparr>imdecode = (\<lambda>p. Some p),
      orb_detect = (\<lambda>i. Some i),
      bf_match = (\<lambda>da db.
        if da = ''b0.jpg'' \<and> db = ''a1.jpg'' then Some [64 / 5] else Some [128])\<rparr>"

text \<open>
  The submission of this job: \<open>ex_strip\<close> is \<open>str.strip\<close> on ASCII text, which the
  texts of this job are, \<open>ex_float\<close> is \<open>float\<close> on the three threshold texts that
  are used, \<open>ex_form\<close> the form with a given threshold text, \<open>ex_server\<close> the server before
  any submission, \<open>ex_job\<close> the job as \<open>start\<close> creates it, and \<open>ex_no_before\<close> the same
  library over an empty \<open>before\<close> folder.
\<close>

definition ex_isspace :: "char \<Rightarrow> bool" where
  "ex_isspace c = (of_char c \<in> {9, 10, 11, 12, 13, 28, 29, 30, 31, 32 :: nat})"

definition ex_strip :: "string \<Rightarrow> string" where
  "ex_strip s = rev (dropWhile ex_isspace (rev (dropWhile ex_isspace s)))"

definition ex_float :: "string \<Rightarrow> real option" where
  "ex_float s =
     (if s = ''0.70'' then Some (7 / 10)
      else if s = ''1.1'' then Some (11 / 10)
      else if s = ''-0.1'' then Some (- 1 / 10)
      else None)"

definition ex_form :: "string \<Rightarrow> (string \<rightharpoonup> string)" where
  "ex_form thr = [''month'' \<mapsto> ''2024-05'', ''site'' \<mapsto> ''ALPHA'', ''threshold'' \<mapsto> thr]"

definition ex_server :: server where
  "ex_server = \<lparr>jobs = Map.empty, threads = []\<rparr>"

definition ex_job :: job where
  "ex_job = \<lparr>job_rec = queued, job_queue = []\<rparr>"


text \<open>The same library when \<open>b1.jpg\<close> is a file that PIL cannot open.\<close>

definition ex_corrupt :: "(path, path) cv" where
  "ex_corrupt =
     ex_lib\<lparr>decode_exn := (\<lambda>p.
        if p = ''b1.jpg'' then Some ''cannot identify image file'' else None)\<rparr>"

text \<open>
  Two observers of one job: both take their ping, the worker pushes one message, and
  both try to read it, observer 0 first.
\<close>

definition ex_sched :: "progress action list" where
  "ex_sched = [Next 0, Next 1, Put queued, Next 0, Next 1]"

section \<open>Properties of the candidate list\<close>

lemma enumerate_nth: "enumerate 0 xs = map (\<lambda>j. (j, xs ! j)) [0..<length xs]"
  by (rule nth_equalityI) (simp_all add: nth_enumerate_eq)

lemma dlist_unused:
  "dlist h items u = map (\<lambda>j. (j, fp_dist h items j)) (unused items u)"
  unfolding dlist_def enumerate_nth unused_def fp_dist_def
  by (simp add: filter_map comp_def case_prod_beta)

lemma set_unused: "set (unused items u) = {j. j < length items \<and> \<not> used_get u j}"
  by (auto simp: unused_def)

lemma distinct_unused: "distinct (unused items u)"
  by (simp add: unused_def)

lemma insort_nearer:
  "sorted_wrt nearer ys \<Longrightarrow> \<forall>y\<in>set ys. fst x < fst y \<Longrightarrow>
   sorted_wrt nearer (insort_key snd x ys)"
proof (induction ys)
  case Nil
  then show ?case by simp
next
  case (Cons y ys)
  show ?case
  proof (cases "snd x \<le> snd y")
    case True
    have "nearer x z" if "z \<in> set (y # ys)" for z
      using that True Cons.prems by (fastforce simp: nearer_def)
    then show ?thesis using True Cons.prems(1) by simp
  next
    case False
    have "sorted_wrt nearer (insort_key snd x ys)"
      using Cons by simp
    moreover have "nearer y z" if "z \<in> set (insort_key snd x ys)" for z
      using that False Cons.prems(1) by (auto simp: set_insort_key nearer_def)
    ultimately show ?thesis using False by simp
  qed
qed

lemma sort_key_nearer:
  "sorted_wrt (\<lambda>a b. fst a < fst b) xs \<Longrightarrow> sorted_wrt nearer (sort_key snd xs)"
proof (induction xs)
  case Nil
  then show ?case by simp
next
  case (Cons x xs)
  then show ?case by (simp add: insort_nearer)
qed

lemma dlist_sorted_fst: "sorted_wrt (\<lambda>a b. fst a < fst b) (dlist h items u)"
  unfolding dlist_unused unused_def
  by (simp add: sorted_wrt_map sorted_wrt_filter)

lemma set_dlist:
  "set (dlist h items u) = {(j, fp_dist h items j) | j. j \<in> set (unused items u)}"
  unfolding dlist_unused by auto

lemma sorted_dlist_nearer: "sorted_wrt nearer (sort_key snd (dlist h items u))"
  by (rule sort_key_nearer) (rule dlist_sorted_fst)

lemma snd_dlist: "a \<in> set (dlist h items u) \<Longrightarrow> a = (fst a, fp_dist h items (fst a))"
  by (auto simp: set_dlist)

lemma distinct_fst_dlist: "distinct (map fst (dlist h items u))"
  unfolding dlist_unused by (simp add: comp_def distinct_unused)

lemma cand_subset: "set (cand cfg h items u) \<subseteq> set (unused items u)"
proof
  fix j assume "j \<in> set (cand cfg h items u)"
  then obtain a where "a \<in> set (take (nat (max 1 (TOPK cfg))) (sort_key snd (dlist h items u)))"
    and "j = fst a"
    by (auto simp: cand_def)
  then have "a \<in> set (dlist h items u)" "j = fst a"
    by (auto dest: in_set_takeD)
  then show "j \<in> set (unused items u)"
    by (auto simp: set_dlist)
qed

lemma cand_in_range:
  "j \<in> set (cand cfg h items u) \<Longrightarrow> j < length items \<and> \<not> used_get u j"
  using cand_subset [of cfg h items u] by (auto simp: set_unused)

lemma distinct_cand: "distinct (cand cfg h items u)"
proof -
  have "distinct (map fst (sort_key snd (dlist h items u)))"
    using distinct_fst_dlist [of h items u]
    by (metis distinct_map distinct_sort set_sort)
  then show ?thesis
    unfolding cand_def by (simp add: take_map [symmetric])
qed

lemma length_cand:
  "length (cand cfg h items u) = min (nat (max 1 (TOPK cfg))) (length (unused items u))"
  by (simp add: cand_def dlist_unused min.commute)

lemma cand_Nil_iff: "cand cfg h items u = [] \<longleftrightarrow> unused items u = []"
proof -
  have "0 < nat (max 1 (TOPK cfg))"
    by simp
  then have "length (cand cfg h items u) = 0 \<longleftrightarrow> length (unused items u) = 0"
    unfolding length_cand by (auto simp: min_def)
  then show ?thesis by simp
qed

lemma sorted_cand:
  "sorted_wrt (\<lambda>i j. nearer (i, fp_dist h items i) (j, fp_dist h items j)) (cand cfg h items u)"
proof -
  let ?srt = "sort_key snd (dlist h items u)"
  let ?tk = "take (nat (max 1 (TOPK cfg))) ?srt"
  have "sorted_wrt nearer (?tk @ drop (nat (max 1 (TOPK cfg))) ?srt)"
    using sorted_dlist_nearer [of h items u] by simp
  then have tk: "sorted_wrt nearer ?tk"
    unfolding sorted_wrt_append by blast
  have mem: "a = (fst a, fp_dist h items (fst a))" if "a \<in> set ?tk" for a
    using that snd_dlist [of a h items u] by (auto dest: in_set_takeD)
  have "sorted_wrt (\<lambda>a b. nearer (fst a, fp_dist h items (fst a))
                            (fst b, fp_dist h items (fst b))) ?tk"
    by (rule sorted_wrt_mono_rel [OF _ tk]) (use mem in metis)
  then show ?thesis
    unfolding cand_def sorted_wrt_map .
qed

lemma cand_before_rest:
  assumes "i \<in> set (cand cfg h items u)"
    and "j \<in> set (unused items u)" and "j \<notin> set (cand cfg h items u)"
  shows "nearer (i, fp_dist h items i) (j, fp_dist h items j)"
proof -
  let ?srt = "sort_key snd (dlist h items u)"
  let ?k = "nat (max 1 (TOPK cfg))"
  from assms(1) obtain a where a: "a \<in> set (take ?k ?srt)" "i = fst a"
    by (auto simp: cand_def)
  then have "a \<in> set (dlist h items u)"
    by (auto dest: in_set_takeD)
  then have a_eq: "a = (i, fp_dist h items i)"
    using snd_dlist a(2) by metis
  have "(j, fp_dist h items j) \<in> set ?srt"
    using assms(2) by (auto simp: set_dlist)
  then have "(j, fp_dist h items j) \<in> set (take ?k ?srt) \<union> set (drop ?k ?srt)"
    by (metis append_take_drop_id set_append)
  moreover have "(j, fp_dist h items j) \<notin> set (take ?k ?srt)"
    using assms(3) by (force simp: cand_def)
  ultimately have b: "(j, fp_dist h items j) \<in> set (drop ?k ?srt)"
    by blast
  have "sorted_wrt nearer (take ?k ?srt @ drop ?k ?srt)"
    using sorted_dlist_nearer [of h items u] by simp
  then have "nearer a (j, fp_dist h items j)"
    unfolding sorted_wrt_append using a(1) b by blast
  then show ?thesis using a_eq by simp
qed

lemma cand_all:
  assumes "length (unused items u) \<le> nat (max 1 (TOPK cfg))"
  shows "set (cand cfg h items u) = set (unused items u)"
proof -
  have "length (sort_key snd (dlist h items u)) \<le> nat (max 1 (TOPK cfg))"
    using assms by (simp add: dlist_unused)
  then have "cand cfg h items u = map fst (sort_key snd (dlist h items u))"
    by (simp add: cand_def)
  then show ?thesis by (auto simp: set_dlist image_iff)
qed

text \<open>
  Claim C4, as the code has it. The candidate list of a before-image holds only unused
  after-indices, each once; its length is the smaller of \<open>max(1, TOPK)\<close> and the number
  of unused after-images; it is in ascending order of fingerprint distance, equal
  distances in ascending order of index; every unused after-index that is left out comes
  after every candidate in that order; it holds every unused after-index when no more than
  \<open>max(1, TOPK)\<close> are left; and whenever \<open>TOPK\<close> is at least 1 it holds at most \<open>TOPK\<close>
  indices.
\<close>

theorem cand_top_k:
  "set (cand cfg h items u) \<subseteq> set (unused items u) \<and>
   (\<forall>j\<in>set (cand cfg h items u). j < length items \<and> \<not> used_get u j) \<and>
   distinct (cand cfg h items u) \<and>
   length (cand cfg h items u) = min (nat (max 1 (TOPK cfg))) (length (unused items u)) \<and>
   sorted_wrt (\<lambda>i j. nearer (i, fp_dist h items i) (j, fp_dist h items j)) (cand cfg h items u) \<and>
   (\<forall>i\<in>set (cand cfg h items u). \<forall>j\<in>set (unused items u) - set (cand cfg h items u).
      nearer (i, fp_dist h items i) (j, fp_dist h items j)) \<and>
   (length (unused items u) \<le> nat (max 1 (TOPK cfg)) \<longrightarrow>
      set (cand cfg h items u) = set (unused items u)) \<and>
   (1 \<le> TOPK cfg \<longrightarrow> int (length (cand cfg h items u)) \<le> TOPK cfg)"
proof (intro conjI ballI impI)
  show "set (cand cfg h items u) \<subseteq> set (unused items u)"
    by (rule cand_subset)
  show "distinct (cand cfg h items u)"
    by (rule distinct_cand)
  show "length (cand cfg h items u) = min (nat (max 1 (TOPK cfg))) (length (unused items u))"
    by (rule length_cand)
  show "sorted_wrt (\<lambda>i j. nearer (i, fp_dist h items i) (j, fp_dist h items j))
          (cand cfg h items u)"
    by (rule sorted_cand)
next
  fix j assume "j \<in> set (cand cfg h items u)"
  then show "j < length items" and "\<not> used_get u j"
    using cand_in_range by blast+
next
  fix i j
  assume "i \<in> set (cand cfg h items u)"
    and "j \<in> set (unused items u) - set (cand cfg h items u)"
  then show "nearer (i, fp_dist h items i) (j, fp_dist h items j)"
    using cand_before_rest by simp
next
  assume "length (unused items u) \<le> nat (max 1 (TOPK cfg))"
  then show "set (cand cfg h items u) = set (unused items u)"
    by (rule cand_all)
next
  assume "1 \<le> TOPK cfg"
  then show "int (length (cand cfg h items u)) \<le> TOPK cfg"
    unfolding length_cand by simp
qed

theorem cand_top_k_witness:
  "cand ex_cfg 0 ex_items Map.empty = [1, 2] \<and>
   unused ex_items Map.empty = [0, 1, 2] \<and>
   nearer (2, fp_dist 0 ex_items 2) (0, fp_dist 0 ex_items 0) \<and>
   1 \<le> TOPK ex_cfg \<and> int (length (cand ex_cfg 0 ex_items Map.empty)) \<le> TOPK ex_cfg \<and>
   length (unused ex_items [1 \<mapsto> True]) \<le> nat (max 1 (TOPK ex_cfg)) \<and>
   set (cand ex_cfg 0 ex_items [1 \<mapsto> True]) = set (unused ex_items [1 \<mapsto> True])"
proof -
  have c: "cand ex_cfg 0 ex_items Map.empty = [1, 2]"
    by code_simp
  have un: "unused ex_items Map.empty = [0, 1, 2]"
    by code_simp
  have k: "1 \<le> TOPK ex_cfg"
    by code_simp
  have few: "length (unused ex_items [1 \<mapsto> True]) \<le> nat (max 1 (TOPK ex_cfg))"
    by code_simp
  have "nearer (2, fp_dist 0 ex_items 2) (0, fp_dist 0 ex_items 0)"
    using cand_top_k [of ex_cfg 0 ex_items Map.empty] unfolding c un by simp
  moreover have "int (length (cand ex_cfg 0 ex_items Map.empty)) \<le> TOPK ex_cfg"
    using cand_top_k [of ex_cfg 0 ex_items Map.empty] k by blast
  moreover have "set (cand ex_cfg 0 ex_items [1 \<mapsto> True]) = set (unused ex_items [1 \<mapsto> True])"
    using cand_top_k [of ex_cfg 0 ex_items "[1 \<mapsto> True]"] few by blast
  ultimately show ?thesis
    using c un k few by blast
qed

text \<open>
  Claim C4 as it is written, with the configured width \<open>TOPK\<close> for K, fails for a width
  of 0: the slice is \<open>dlist[:max(1, TOPK)]\<close> and one candidate is returned.
\<close>

theorem cand_at_most_topk_counterexample:
  "\<not> int (length (cand (ex_cfg\<lparr>TOPK := 0\<rparr>) 0 ex_items Map.empty)) \<le> TOPK (ex_cfg\<lparr>TOPK := 0\<rparr>)"
  by code_simp

section \<open>Properties of the best candidate\<close>

lemma score_pair_nonneg: "0 \<le> score_pair lib cfg des_a des_b"
  by (simp add: score_pair_def split: option.splits)

lemma score_pair_le_one: "score_pair lib cfg des_a des_b \<le> 1"
  by (simp add: score_pair_def split: option.splits)

lemma best_snoc:
  "best score (js @ [j]) =
     (let (best_j, best_s) = best score js in
        if score j > best_s then (Some j, score j) else (best_j, best_s))"
  by (simp add: best_def Let_def split: prod.splits)

lemma best_Nil: "best score [] = (None, - 1)"
  by (simp add: best_def)

lemma best_invariant:
  "(best score js = (None, - 1) \<and> (\<forall>j\<in>set js. score j \<le> - 1)) \<or>
   (\<exists>k<length js. best score js = (Some (js ! k), score (js ! k)) \<and> - 1 < score (js ! k) \<and>
      (\<forall>i<length js. score (js ! i) \<le> score (js ! k)) \<and>
      (\<forall>i<k. score (js ! i) < score (js ! k)))"
proof (induction js rule: rev_induct)
  case Nil
  then show ?case by (simp add: best_Nil)
next
  case (snoc j js)
  from snoc.IH show ?case
  proof (elim disjE conjE exE)
    assume none: "best score js = (None, - 1)" and low: "\<forall>j\<in>set js. score j \<le> - 1"
    show ?thesis
    proof (cases "score j > - 1")
      case True
      have "best score (js @ [j]) = (Some ((js @ [j]) ! length js), score ((js @ [j]) ! length js))"
        using none True by (simp add: best_snoc)
      moreover have "\<forall>i<length (js @ [j]). score ((js @ [j]) ! i) \<le> score ((js @ [j]) ! length js)"
        using low True by (auto simp: nth_append less_Suc_eq intro: order.trans [of _ "- 1"])
      moreover have "\<forall>i<length js. score ((js @ [j]) ! i) < score ((js @ [j]) ! length js)"
        using low True by (auto simp: nth_append intro: le_less_trans [of _ "- 1"])
      ultimately show ?thesis using True
        by (intro disjI2 exI [of _ "length js"]) simp
    next
      case False
      then show ?thesis using none low by (simp add: best_snoc)
    qed
  next
    fix k
    assume k: "k < length js"
      and b: "best score js = (Some (js ! k), score (js ! k))"
      and pos: "- 1 < score (js ! k)"
      and mx: "\<forall>i<length js. score (js ! i) \<le> score (js ! k)"
      and fst: "\<forall>i<k. score (js ! i) < score (js ! k)"
    show ?thesis
    proof (cases "score j > score (js ! k)")
      case True
      have "best score (js @ [j]) = (Some ((js @ [j]) ! length js), score ((js @ [j]) ! length js))"
        using b True by (simp add: best_snoc)
      moreover have "\<forall>i<length (js @ [j]). score ((js @ [j]) ! i) \<le> score ((js @ [j]) ! length js)"
        using mx True by (auto simp: nth_append less_Suc_eq intro: order.trans [of _ "score (js ! k)"])
      moreover have "\<forall>i<length js. score ((js @ [j]) ! i) < score ((js @ [j]) ! length js)"
        using mx True by (auto simp: nth_append intro: le_less_trans [of _ "score (js ! k)"])
      moreover have "- 1 < score ((js @ [j]) ! length js)"
        using pos True by simp
      ultimately show ?thesis
        by (intro disjI2 exI [of _ "length js"]) simp
    next
      case False
      have "best score (js @ [j]) = (Some ((js @ [j]) ! k), score ((js @ [j]) ! k))"
        using b False k by (simp add: best_snoc nth_append)
      moreover have "\<forall>i<length (js @ [j]). score ((js @ [j]) ! i) \<le> score ((js @ [j]) ! k)"
        using mx False k by (auto simp: nth_append less_Suc_eq)
      moreover have "\<forall>i<k. score ((js @ [j]) ! i) < score ((js @ [j]) ! k)"
        using fst k by (auto simp: nth_append)
      moreover have "- 1 < score ((js @ [j]) ! k)"
        using pos k by (simp add: nth_append)
      ultimately show ?thesis using k
        by (intro disjI2 exI [of _ k]) simp
    qed
  qed
qed

lemma best_first_max:
  assumes "js \<noteq> []" and "\<forall>j\<in>set js. - 1 < score j"
  shows "\<exists>k<length js. best score js = (Some (js ! k), score (js ! k)) \<and>
      (\<forall>i<length js. score (js ! i) \<le> score (js ! k)) \<and>
      (\<forall>i<k. score (js ! i) < score (js ! k))"
proof -
  obtain j where "j \<in> set js" using assms(1) by (cases js) auto
  then have "\<not> (\<forall>j\<in>set js. score j \<le> - 1)"
    using assms(2) by (auto simp: not_le)
  then show ?thesis using best_invariant [of score js] by blast
qed

text \<open>
  With the scores of \<open>score_pair\<close>, which are never negative, the best candidate of a
  non-empty list is an element of the list with the greatest score, and the first such
  element.
\<close>

lemma best_score_pair:
  assumes "js \<noteq> []"
  shows "\<exists>k<length js.
      best (\<lambda>j. score_pair lib cfg d (f j)) js = (Some (js ! k), score_pair lib cfg d (f (js ! k))) \<and>
      (\<forall>i<length js. score_pair lib cfg d (f (js ! i)) \<le> score_pair lib cfg d (f (js ! k))) \<and>
      (\<forall>i<k. score_pair lib cfg d (f (js ! i)) < score_pair lib cfg d (f (js ! k)))"
proof (rule best_first_max [OF assms])
  show "\<forall>j\<in>set js. - 1 < score_pair lib cfg d (f j)"
    using score_pair_nonneg [of lib cfg d] by (auto intro: less_le_trans [of _ 0])
qed

text \<open>
  Claim C3. For a before-image with a non-empty candidate list, the loop of
  \<open>build_report\<close> ends with a candidate \<open>bj\<close> and its score; no candidate has a greater
  score; and every other candidate with the same score has a greater fingerprint
  distance, or the same distance and a greater index.
\<close>

theorem best_is_top_score_nearest:
  assumes "cand cfg h items u \<noteq> []"
  shows "\<exists>bj \<in> set (cand cfg h items u).
     best (\<lambda>j. score_pair lib cfg d (af_desc (fst (items ! j)))) (cand cfg h items u) =
       (Some bj, score_pair lib cfg d (af_desc (fst (items ! bj)))) \<and>
     (\<forall>j \<in> set (cand cfg h items u).
        score_pair lib cfg d (af_desc (fst (items ! j))) \<le>
        score_pair lib cfg d (af_desc (fst (items ! bj)))) \<and>
     (\<forall>j \<in> set (cand cfg h items u).
        j \<noteq> bj \<and>
        score_pair lib cfg d (af_desc (fst (items ! j))) =
        score_pair lib cfg d (af_desc (fst (items ! bj))) \<longrightarrow>
        nearer (bj, fp_dist h items bj) (j, fp_dist h items j))"
proof -
  let ?c = "cand cfg h items u"
  let ?s = "\<lambda>j. score_pair lib cfg d (af_desc (fst (items ! j)))"
  obtain k where k: "k < length ?c"
    and b: "best ?s ?c = (Some (?c ! k), ?s (?c ! k))"
    and mx: "\<forall>i<length ?c. ?s (?c ! i) \<le> ?s (?c ! k)"
    and fst: "\<forall>i<k. ?s (?c ! i) < ?s (?c ! k)"
    using best_score_pair [OF assms, of lib cfg d "\<lambda>j. af_desc (fst (items ! j))"] by blast
  have "?s j \<le> ?s (?c ! k)" if "j \<in> set ?c" for j
    using that mx by (auto simp: in_set_conv_nth)
  moreover have "nearer (?c ! k, fp_dist h items (?c ! k)) (j, fp_dist h items j)"
    if j: "j \<in> set ?c" and ne: "j \<noteq> ?c ! k" and eq: "?s j = ?s (?c ! k)" for j
  proof -
    from j obtain i where i: "i < length ?c" "?c ! i = j"
      by (auto simp: in_set_conv_nth)
    have "\<not> i < k" using fst eq i by auto
    moreover have "i \<noteq> k" using ne i by auto
    ultimately have "k < i" by simp
    then show ?thesis
      using sorted_wrt_nth_less [OF sorted_cand [of h items cfg u] \<open>k < i\<close> i(1)] i(2) by simp
  qed
  ultimately show ?thesis
    using k b by (intro bexI [of _ "?c ! k"]) auto
qed

theorem best_is_top_score_nearest_witness:
  "cand ex_cfg 0 ex_items [1 \<mapsto> True] = [2, 0] \<and>
   best (\<lambda>j. score_pair ex_lib ex_cfg (Some [''b2.jpg'']) (descriptor ex_lib (fst (ex_items ! j))))
     (cand ex_cfg 0 ex_items [1 \<mapsto> True]) = (Some 2, 0) \<and>
   score_pair ex_lib ex_cfg (Some [''b2.jpg'']) (descriptor ex_lib (fst (ex_items ! 0))) = 0 \<and>
   nearer (2, fp_dist 0 ex_items 2) (0, fp_dist 0 ex_items 0)"
proof -
  let ?s = "\<lambda>j. score_pair ex_lib ex_cfg (Some [''b2.jpg'']) (descriptor ex_lib (fst (ex_items ! j)))"
  have c: "cand ex_cfg 0 ex_items [1 \<mapsto> True] = [2, 0]"
    by code_simp
  have s0: "?s 0 = 0" and s2: "?s 2 = 0"
    by code_simp+
  have ne: "cand ex_cfg 0 ex_items [1 \<mapsto> True] \<noteq> []"
    unfolding c by simp
  from best_is_top_score_nearest [OF ne, of ex_lib "Some [''b2.jpg'']" "descriptor ex_lib"]
  obtain bj where bj: "bj \<in> set [2, 0]"
    and b: "best ?s [2, 0] = (Some bj, ?s bj)"
    and near: "\<forall>j\<in>set [2, 0]. j \<noteq> bj \<and> ?s j = ?s bj \<longrightarrow>
        nearer (bj, fp_dist 0 ex_items bj) (j, fp_dist 0 ex_items j)"
    unfolding c by blast
  have "best ?s [2, 0] = (Some 2, 0)"
    by code_simp
  with b have "bj = 2" by simp
  with near s0 s2 have "nearer (2, fp_dist 0 ex_items 2) (0, fp_dist 0 ex_items 0)"
    by simp
  with c s0 \<open>best ?s [2, 0] = (Some 2, 0)\<close> show ?thesis by simp
qed


section \<open>Properties of the matching loop\<close>


lemma best_Some_mem: "fst (best score js) = Some j \<Longrightarrow> j \<in> set js"
  using best_invariant [of score js] by auto

lemma step_best_Nil:
  "step_cand cfg afters be_ph af_ph (fst ib) st = [] \<Longrightarrow>
   step_best lib cfg afters be_ph af_ph be_desc af_desc ib st = (None, - 1)"
  by (simp add: step_best_def best_Nil)

lemma step_best_Some:
  assumes "step_cand cfg afters be_ph af_ph (fst ib) st \<noteq> []"
  shows "\<exists>bj. fst (step_best lib cfg afters be_ph af_ph be_desc af_desc ib st) = Some bj \<and>
     0 \<le> snd (step_best lib cfg afters be_ph af_ph be_desc af_desc ib st)"
proof -
  obtain k where
    "step_best lib cfg afters be_ph af_ph be_desc af_desc ib st =
       (Some (step_cand cfg afters be_ph af_ph (fst ib) st ! k),
        score_pair lib cfg (be_desc (snd ib))
          (af_desc (fst (zip afters af_ph ! (step_cand cfg afters be_ph af_ph (fst ib) st ! k)))))"
    unfolding step_best_def
    using best_score_pair [OF assms, of lib cfg "be_desc (snd ib)" "\<lambda>j. af_desc (fst (zip afters af_ph ! j))"]
    by blast
  then show ?thesis by (simp add: score_pair_nonneg)
qed

lemma step_best_Some_unused:
  assumes "fst (step_best lib cfg afters be_ph af_ph be_desc af_desc ib st) = Some bj"
  shows "bj < length afters \<and> \<not> used_get (used st) bj"
proof -
  have "bj \<in> set (step_cand cfg afters be_ph af_ph (fst ib) st)"
    using assms unfolding step_best_def by (rule best_Some_mem)
  then have "bj < length (zip afters af_ph) \<and> \<not> used_get (used st) bj"
    unfolding step_cand_def by (rule cand_in_range)
  then show ?thesis by simp
qed

lemma step_best_nonneg:
  assumes "fst (step_best lib cfg afters be_ph af_ph be_desc af_desc ib st) = Some bj"
  shows "0 \<le> snd (step_best lib cfg afters be_ph af_ph be_desc af_desc ib st)"
proof (cases "step_cand cfg afters be_ph af_ph (fst ib) st = []")
  case True
  then show ?thesis using assms by (simp add: step_best_Nil)
next
  case False
  then show ?thesis using step_best_Some by blast
qed

lemma match_step_confident:
  assumes "fst (step_best lib cfg afters be_ph af_ph be_desc af_desc (idx, b) st) = Some bj"
    and "threshold \<le> snd (step_best lib cfg afters be_ph af_ph be_desc af_desc (idx, b) st)"
  shows "match_step lib cfg threshold afters be_ph af_ph be_desc af_desc (idx, b) st =
     st\<lparr>used := (used st)(bj \<mapsto> True),
        pairs := pairs st @
          [(b, afters ! bj, snd (step_best lib cfg afters be_ph af_ph be_desc af_desc (idx, b) st))],
        prog := (prog st)\<lparr>matched := matched (prog st) + 1, done_count := int idx + 1\<rparr>\<rparr>"
  using assms by (simp add: match_step_def step_best_def step_cand_def Let_def case_prod_beta)

lemma match_step_fallback:
  assumes "fst (step_best lib cfg afters be_ph af_ph be_desc af_desc (idx, b) st) = None \<or>
     snd (step_best lib cfg afters be_ph af_ph be_desc af_desc (idx, b) st) < threshold"
  shows "match_step lib cfg threshold afters be_ph af_ph be_desc af_desc (idx, b) st =
     (if idx < length afters \<and> \<not> used_get (used st) idx then
        st\<lparr>used := (used st)(idx \<mapsto> True),
           pairs := pairs st @ [(b, afters ! idx, - 1)],
           prog := (prog st)\<lparr>unmatched := unmatched (prog st) + 1, done_count := int idx + 1\<rparr>\<rparr>
      else st\<lparr>prog := (prog st)\<lparr>done_count := int idx + 1\<rparr>\<rparr>)"
  using assms by (auto simp add: match_step_def step_best_def step_cand_def Let_def case_prod_beta)

text \<open>The three outcomes of one pass through the body of the loop.\<close>

lemma match_step_cases:
  obtains (confident) bj s where "bj < length afters" and "\<not> used_get (used st) bj"
      and "threshold \<le> s" and "0 \<le> s"
      and "match_step lib cfg threshold afters be_ph af_ph be_desc af_desc (idx, b) st =
        st\<lparr>used := (used st)(bj \<mapsto> True), pairs := pairs st @ [(b, afters ! bj, s)],
           prog := (prog st)\<lparr>matched := matched (prog st) + 1, done_count := int idx + 1\<rparr>\<rparr>"
  | (fallback) "idx < length afters" and "\<not> used_get (used st) idx"
      and "match_step lib cfg threshold afters be_ph af_ph be_desc af_desc (idx, b) st =
        st\<lparr>used := (used st)(idx \<mapsto> True), pairs := pairs st @ [(b, afters ! idx, - 1)],
           prog := (prog st)\<lparr>unmatched := unmatched (prog st) + 1, done_count := int idx + 1\<rparr>\<rparr>"
  | (skip) "match_step lib cfg threshold afters be_ph af_ph be_desc af_desc (idx, b) st =
        st\<lparr>prog := (prog st)\<lparr>done_count := int idx + 1\<rparr>\<rparr>"
proof -
  let ?bst = "step_best lib cfg afters be_ph af_ph be_desc af_desc (idx, b) st"
  show thesis
  proof (cases "fst ?bst \<noteq> None \<and> threshold \<le> snd ?bst")
    case True
    then obtain bj where bj: "fst ?bst = Some bj" by auto
    show thesis
    proof (rule confident)
      show "bj < length afters" "\<not> used_get (used st) bj"
        using step_best_Some_unused [OF bj] by simp_all
      show "threshold \<le> snd ?bst" using True by simp
      show "0 \<le> snd ?bst" using bj by (rule step_best_nonneg)
      show "match_step lib cfg threshold afters be_ph af_ph be_desc af_desc (idx, b) st =
        st\<lparr>used := (used st)(bj \<mapsto> True), pairs := pairs st @ [(b, afters ! bj, snd ?bst)],
           prog := (prog st)\<lparr>matched := matched (prog st) + 1, done_count := int idx + 1\<rparr>\<rparr>"
        using bj True by (simp add: match_step_confident)
    qed
  next
    case False
    then have fb: "fst ?bst = None \<or> snd ?bst < threshold" by auto
    show thesis
    proof (cases "idx < length afters \<and> \<not> used_get (used st) idx")
      case True
      show thesis
        by (rule fallback) (use True match_step_fallback [OF fb] in simp_all)
    next
      case False
      show thesis
        by (rule skip) (use False match_step_fallback [OF fb] in auto)
    qed
  qed
qed

lemma fold_invariant:
  assumes "P s" and "\<And>x s. x \<in> set xs \<Longrightarrow> P s \<Longrightarrow> P (f x s)"
  shows "P (fold f xs s)"
  using assms by (induction xs arbitrary: s) auto


lemma assigned_Nil: "assigned afters [] is_used"
  unfolding assigned_def by (intro exI [of _ "[]"]) simp

lemma assigned_snoc:
  assumes "assigned afters ps is_used" and "j < length afters" and "\<not> is_used j"
    and "\<And>i. is_used i \<Longrightarrow> is_used' i" and "is_used' j"
  shows "assigned afters (ps @ [(b, afters ! j, s)]) is_used'"
proof -
  from assms(1) obtain js where js: "distinct js"
    "\<forall>j\<in>set js. j < length afters \<and> is_used j"
    "map (fst \<circ> snd) ps = map ((!) afters) js"
    unfolding assigned_def by blast
  have "j \<notin> set js" using js(2) assms(3) by blast
  then have "distinct (js @ [j])" using js(1) by simp
  moreover have "\<forall>i\<in>set (js @ [j]). i < length afters \<and> is_used' i"
    using js(2) assms(2,4,5) by auto
  moreover have "map (fst \<circ> snd) (ps @ [(b, afters ! j, s)]) = map ((!) afters) (js @ [j])"
    using js(3) by simp
  ultimately show ?thesis unfolding assigned_def by blast
qed

lemma assigned_distinct:
  assumes "assigned afters ps is_used" and "distinct afters"
  shows "distinct (map (fst \<circ> snd) ps)"
proof -
  from assms(1) obtain js where js: "distinct js" "\<forall>j\<in>set js. j < length afters"
    "map (fst \<circ> snd) ps = map ((!) afters) js"
    unfolding assigned_def by blast
  have "inj_on ((!) afters) (set js)"
    using js(2) assms(2) by (auto simp: inj_on_def nth_eq_iff_index_eq)
  then show ?thesis using js(1,3) by (simp add: distinct_map)
qed

lemma match_step_assigned:
  assumes "assigned afters (pairs st) (used_get (used st))"
  shows "assigned afters (pairs (match_step lib cfg threshold afters be_ph af_ph be_desc af_desc ib st))
     (used_get (used (match_step lib cfg threshold afters be_ph af_ph be_desc af_desc ib st)))"
proof -
  obtain idx b where ib: "ib = (idx, b)" by (cases ib)
  show ?thesis
  proof (cases rule: match_step_cases [of afters st threshold lib cfg be_ph af_ph be_desc af_desc idx b])
    case (confident bj s)
    have "assigned afters (pairs st @ [(b, afters ! bj, s)]) (used_get ((used st)(bj \<mapsto> True)))"
      by (rule assigned_snoc [OF assms confident(1,2)]) (auto simp: used_get_def)
    then show ?thesis unfolding ib confident(5) by simp
  next
    case fallback
    have "assigned afters (pairs st @ [(b, afters ! idx, - 1)]) (used_get ((used st)(idx \<mapsto> True)))"
      by (rule assigned_snoc [OF assms fallback(1,2)]) (auto simp: used_get_def)
    then show ?thesis unfolding ib fallback(3) by simp
  next
    case skip
    then show ?thesis using assms unfolding ib by simp
  qed
qed

lemma match_loop_assigned:
  "assigned afters (pairs (match_loop lib cfg threshold befores afters be_ph af_ph be_desc af_desc p))
     (used_get (used (match_loop lib cfg threshold befores afters be_ph af_ph be_desc af_desc p)))"
  unfolding match_loop_def
  by (rule fold_invariant) (simp_all add: assigned_Nil match_step_assigned)

lemma match_step_scored:
  assumes "scored threshold m0 u0 st"
  shows "scored threshold m0 u0 (match_step lib cfg threshold afters be_ph af_ph be_desc af_desc ib st)"
proof -
  obtain idx b where ib: "ib = (idx, b)" by (cases ib)
  show ?thesis
  proof (cases rule: match_step_cases [of afters st threshold lib cfg be_ph af_ph be_desc af_desc idx b])
    case (confident bj s)
    then have "s \<noteq> - 1" by simp
    then show ?thesis
      using assms confident(3,4) unfolding ib confident(5) scored_def by simp
  next
    case fallback
    then show ?thesis using assms unfolding ib scored_def by simp
  next
    case skip
    then show ?thesis using assms unfolding ib scored_def by simp
  qed
qed

lemma match_loop_scored:
  "scored threshold (matched p) (unmatched p)
     (match_loop lib cfg threshold befores afters be_ph af_ph be_desc af_desc p)"
  unfolding match_loop_def
  by (rule fold_invariant) (simp_all add: match_step_scored, simp add: scored_def)


section \<open>Properties of the command-line matcher\<close>


lemma orb_score_nonneg: "0 \<le> orb_score lib a b"
  by (simp add: orb_score_def split: option.splits)

lemma best_cong:
  assumes "\<And>j. j \<in> set js \<Longrightarrow> f j = g j"
  shows "best f js = best g js"
  unfolding best_def
  by (rule fold_cong) (use assms in \<open>auto simp: fun_eq_iff\<close>)

lemma best_unused_eq:
  "best_unused lib b afters U =
     best (\<lambda>j. orb_score lib b (afters ! j)) (filter (\<lambda>j. j \<notin> U) [0..<length afters])"
proof (induction afters rule: rev_induct)
  case Nil
  show ?case by (simp add: best_unused_def best_def)
next
  case (snoc a as)
  let ?js = "filter (\<lambda>j. j \<notin> U) [0..<length as]"
  have old: "best (\<lambda>j. orb_score lib b ((as @ [a]) ! j)) ?js =
             best (\<lambda>j. orb_score lib b (as ! j)) ?js"
    by (rule best_cong) (simp add: nth_append)
  have step: "best_unused lib b (as @ [a]) U =
      (let (best_j, best_s) = best_unused lib b as U in
         if length as \<in> U then (best_j, best_s)
         else if orb_score lib b a > best_s then (Some (length as), orb_score lib b a)
         else (best_j, best_s))"
    by (simp add: best_unused_def enumerate_append_eq Let_def split: prod.splits)
  show ?case
  proof (cases "length as \<in> U")
    case True
    then show ?thesis using step snoc.IH old by (simp split: prod.splits)
  next
    case False
    then have "filter (\<lambda>j. j \<notin> U) [0..<length (as @ [a])] = ?js @ [length as]"
      by simp
    then show ?thesis
      using step snoc.IH old False by (simp add: best_snoc Let_def split: prod.splits)
  qed
qed

lemma best_unused_Some:
  assumes "fst (best_unused lib b afters U) = Some j"
  shows "j < length afters \<and> j \<notin> U \<and> 0 \<le> snd (best_unused lib b afters U)"
proof -
  let ?score = "\<lambda>j. orb_score lib b (afters ! j)"
  let ?js = "filter (\<lambda>j. j \<notin> U) [0..<length afters]"
  have b: "fst (best ?score ?js) = Some j"
    using assms by (simp add: best_unused_eq)
  then have "j \<in> set ?js" by (rule best_Some_mem)
  moreover have "snd (best ?score ?js) = ?score j"
    using b best_invariant [of ?score ?js] by auto
  ultimately show ?thesis
    by (simp add: best_unused_eq orb_score_nonneg)
qed

lemma best_unused_None:
  assumes "\<forall>j<length afters. j \<in> U"
  shows "best_unused lib b afters U = (None, - 1)"
proof -
  have "filter (\<lambda>j. j \<notin> U) [0..<length afters] = []"
    using assms by (simp add: filter_empty_conv)
  then show ?thesis by (simp add: best_unused_eq best_Nil)
qed

lemma best_pairs_step_fallback:
  assumes "fst (best_unused lib b afters U) = None \<or> snd (best_unused lib b afters U) < threshold"
  shows "best_pairs_step lib threshold afters (bi, b) (ps, U) =
     (if bi < length afters \<and> bi \<notin> U then (ps @ [(b, afters ! bi, - 1)], insert bi U)
      else (ps, U))"
  using assms by (auto simp: best_pairs_step_def Let_def case_prod_beta)

lemma best_pairs_step_confident:
  assumes "fst (best_unused lib b afters U) = Some bj"
    and "threshold \<le> snd (best_unused lib b afters U)"
  shows "best_pairs_step lib threshold afters (bi, b) (ps, U) =
     (ps @ [(b, afters ! bj, snd (best_unused lib b afters U))], insert bj U)"
  using assms by (simp add: best_pairs_step_def Let_def case_prod_beta)

lemma best_pairs_step_cases:
  obtains (confident) bj s where "bj < length afters" and "bj \<notin> U" and "threshold \<le> s" and "0 \<le> s"
      and "best_pairs_step lib threshold afters (bi, b) (ps, U) =
             (ps @ [(b, afters ! bj, s)], insert bj U)"
  | (fallback) "bi < length afters" and "bi \<notin> U"
      and "best_pairs_step lib threshold afters (bi, b) (ps, U) =
             (ps @ [(b, afters ! bi, - 1)], insert bi U)"
  | (skip) "best_pairs_step lib threshold afters (bi, b) (ps, U) = (ps, U)"
proof -
  let ?bst = "best_unused lib b afters U"
  show thesis
  proof (cases "fst ?bst \<noteq> None \<and> threshold \<le> snd ?bst")
    case True
    then obtain bj where bj: "fst ?bst = Some bj" by auto
    show thesis
    proof (rule confident)
      show "bj < length afters" "bj \<notin> U" "0 \<le> snd ?bst"
        using best_unused_Some [OF bj] by simp_all
      show "threshold \<le> snd ?bst" using True by simp
      show "best_pairs_step lib threshold afters (bi, b) (ps, U) =
             (ps @ [(b, afters ! bj, snd ?bst)], insert bj U)"
        using bj True by (simp add: best_pairs_step_confident)
    qed
  next
    case False
    then have fb: "fst ?bst = None \<or> snd ?bst < threshold" by auto
    show thesis
    proof (cases "bi < length afters \<and> bi \<notin> U")
      case True
      show thesis
        by (rule fallback) (use True best_pairs_step_fallback [OF fb] in simp_all)
    next
      case False
      show thesis
        by (rule skip) (use False best_pairs_step_fallback [OF fb] in auto)
    qed
  qed
qed

lemma best_pairs_step_assigned:
  assumes "assigned afters (fst acc) (\<lambda>j. j \<in> snd acc)"
  shows "assigned afters (fst (best_pairs_step lib threshold afters ib acc))
     (\<lambda>j. j \<in> snd (best_pairs_step lib threshold afters ib acc))"
proof -
  obtain bi b where ib: "ib = (bi, b)" by (cases ib)
  obtain ps U where acc: "acc = (ps, U)" by (cases acc)
  have a: "assigned afters ps (\<lambda>j. j \<in> U)" using assms acc by simp
  show ?thesis
  proof (cases rule: best_pairs_step_cases [of afters U threshold lib bi b ps])
    case (confident bj s)
    have "assigned afters (ps @ [(b, afters ! bj, s)]) (\<lambda>j. j \<in> insert bj U)"
      by (rule assigned_snoc [OF a confident(1,2)]) auto
    then show ?thesis unfolding ib acc confident(5) by simp
  next
    case fallback
    have "assigned afters (ps @ [(b, afters ! bi, - 1)]) (\<lambda>j. j \<in> insert bi U)"
      by (rule assigned_snoc [OF a fallback(1,2)]) auto
    then show ?thesis unfolding ib acc fallback(3) by simp
  next
    case skip
    then show ?thesis using a unfolding ib acc by simp
  qed
qed

lemma best_pairs_assigned:
  "assigned afters (best_pairs lib befores afters threshold)
     (\<lambda>j. j \<in> snd (best_pairs_loop lib befores afters threshold))"
  unfolding best_pairs_def best_pairs_loop_def
  by (rule fold_invariant) (simp_all add: assigned_Nil best_pairs_step_assigned)



section \<open>Claims about the pairing\<close>

text \<open>
  Claim C1. In the pairing of \<open>build_report\<close> and in the pairing of \<open>best_pairs\<close> the
  after-images of the pairs are the after-images at pairwise distinct indices of the
  after-collection; so with pairwise distinct after-images, as a directory listing has
  them, no after-image is in two pairs.
\<close>

theorem after_images_assigned_once:
  "(\<exists>js. distinct js \<and> (\<forall>j\<in>set js. j < length afters) \<and>
      map (fst \<circ> snd)
        (pairs (match_loop lib cfg threshold befores afters be_ph af_ph be_desc af_desc p)) =
      map ((!) afters) js) \<and>
   (distinct afters \<longrightarrow>
      distinct (map (fst \<circ> snd)
        (pairs (match_loop lib cfg threshold befores afters be_ph af_ph be_desc af_desc p)))) \<and>
   (\<exists>js. distinct js \<and> (\<forall>j\<in>set js. j < length afters) \<and>
      map (fst \<circ> snd) (best_pairs tlib befores afters threshold) = map ((!) afters) js) \<and>
   (distinct afters \<longrightarrow>
      distinct (map (fst \<circ> snd) (best_pairs tlib befores afters threshold)))"
proof -
  let ?st = "match_loop lib cfg threshold befores afters be_ph af_ph be_desc af_desc p"
  have a: "assigned afters (pairs ?st) (used_get (used ?st))"
    by (rule match_loop_assigned)
  have b: "assigned afters (best_pairs tlib befores afters threshold)
             (\<lambda>j. j \<in> snd (best_pairs_loop tlib befores afters threshold))"
    by (rule best_pairs_assigned)
  have "\<exists>js. distinct js \<and> (\<forall>j\<in>set js. j < length afters) \<and>
      map (fst \<circ> snd) (pairs ?st) = map ((!) afters) js"
    using a unfolding assigned_def by blast
  moreover have "\<exists>js. distinct js \<and> (\<forall>j\<in>set js. j < length afters) \<and>
      map (fst \<circ> snd) (best_pairs tlib befores afters threshold) = map ((!) afters) js"
    using b unfolding assigned_def by blast
  moreover have "distinct afters \<longrightarrow> distinct (map (fst \<circ> snd) (pairs ?st))"
    using assigned_distinct [OF a] by blast
  moreover have "distinct afters \<longrightarrow>
      distinct (map (fst \<circ> snd) (best_pairs tlib befores afters threshold))"
    using assigned_distinct [OF b] by blast
  ultimately show ?thesis by blast
qed

theorem after_images_assigned_once_witness:
  "distinct ex_afters \<and>
   map (fst \<circ> snd) (pairs (ex_state 4)) = [''a1.jpg'', ''a2.jpg''] \<and>
   distinct (map (fst \<circ> snd) (pairs (ex_state 4))) \<and>
   map (fst \<circ> snd) (best_pairs ex_table ex_befores ex_afters (7 / 10)) = [''a1.jpg'', ''a2.jpg''] \<and>
   distinct (map (fst \<circ> snd) (best_pairs ex_table ex_befores ex_afters (7 / 10)))"
proof -
  have d: "distinct ex_afters"
    by code_simp
  have st: "ex_state 4 =
      match_loop ex_lib ex_cfg (7 / 10) ex_befores ex_afters
        (map (phash ex_lib) ex_befores) (map (phash ex_lib) ex_afters)
        (descriptor ex_lib) (descriptor ex_lib) queued"
    by (simp add: ex_state_def match_loop_def ex_befores_def)
  have v: "map (fst \<circ> snd) (pairs (ex_state 4)) = [''a1.jpg'', ''a2.jpg'']"
    by code_simp
  have w: "map (fst \<circ> snd) (best_pairs ex_table ex_befores ex_afters (7 / 10)) =
      [''a1.jpg'', ''a2.jpg'']"
    by code_simp
  note t = after_images_assigned_once [of ex_afters ex_lib ex_cfg "7 / 10" ex_befores
      "map (phash ex_lib) ex_befores" "map (phash ex_lib) ex_afters"
      "descriptor ex_lib" "descriptor ex_lib" queued ex_table, folded st]
  from t d have "distinct (map (fst \<circ> snd) (pairs (ex_state 4)))"
    by blast
  moreover from t d
  have "distinct (map (fst \<circ> snd) (best_pairs ex_table ex_befores ex_afters (7 / 10)))"
    by blast
  ultimately show ?thesis using d v w by blast
qed

text \<open>
  Claim C2. When a before-image has no candidate, or the score of its best candidate is
  below the threshold, the body of the loop pairs it with the after-image at its own
  index with the score \<open>-1\<close>, marks that index used and counts it as unmatched, exactly
  when the index is within the after-collection and not yet used; otherwise it adds no
  pair and marks nothing. This holds in \<open>build_report\<close> and in \<open>best_pairs\<close>.
\<close>

theorem positional_fallback:
  "(step_cand cfg afters be_ph af_ph idx st = [] \<or>
    snd (step_best lib cfg afters be_ph af_ph be_desc af_desc (idx, b) st) < threshold \<longrightarrow>
    match_step lib cfg threshold afters be_ph af_ph be_desc af_desc (idx, b) st =
      (if idx < length afters \<and> \<not> used_get (used st) idx then
         st\<lparr>used := (used st)(idx \<mapsto> True),
            pairs := pairs st @ [(b, afters ! idx, - 1)],
            prog := (prog st)\<lparr>unmatched := unmatched (prog st) + 1, done_count := int idx + 1\<rparr>\<rparr>
       else st\<lparr>prog := (prog st)\<lparr>done_count := int idx + 1\<rparr>\<rparr>)) \<and>
   ((\<forall>j<length afters. j \<in> U) \<or> snd (best_unused tlib b afters U) < threshold \<longrightarrow>
    best_pairs_step tlib threshold afters (idx, b) (ps, U) =
      (if idx < length afters \<and> idx \<notin> U then (ps @ [(b, afters ! idx, - 1)], insert idx U)
       else (ps, U)))"
proof (intro conjI impI)
  let ?bst = "step_best lib cfg afters be_ph af_ph be_desc af_desc (idx, b) st"
  assume "step_cand cfg afters be_ph af_ph idx st = [] \<or> snd ?bst < threshold"
  then have "fst ?bst = None \<or> snd ?bst < threshold"
    using step_best_Nil [of cfg afters be_ph af_ph "(idx, b)" st lib be_desc af_desc] by auto
  then show "match_step lib cfg threshold afters be_ph af_ph be_desc af_desc (idx, b) st =
      (if idx < length afters \<and> \<not> used_get (used st) idx then
         st\<lparr>used := (used st)(idx \<mapsto> True),
            pairs := pairs st @ [(b, afters ! idx, - 1)],
            prog := (prog st)\<lparr>unmatched := unmatched (prog st) + 1, done_count := int idx + 1\<rparr>\<rparr>
       else st\<lparr>prog := (prog st)\<lparr>done_count := int idx + 1\<rparr>\<rparr>)"
    by (rule match_step_fallback)
next
  assume "(\<forall>j<length afters. j \<in> U) \<or> snd (best_unused tlib b afters U) < threshold"
  then have "fst (best_unused tlib b afters U) = None \<or>
      snd (best_unused tlib b afters U) < threshold"
    using best_unused_None [of afters U tlib b] by auto
  then show "best_pairs_step tlib threshold afters (idx, b) (ps, U) =
      (if idx < length afters \<and> idx \<notin> U then (ps @ [(b, afters ! idx, - 1)], insert idx U)
       else (ps, U))"
    by (rule best_pairs_step_fallback)
qed

text \<open>
  In the worked job \<open>b2.jpg\<close> (index 2) has the best score 0 and is paired with
  \<open>a2.jpg\<close>; \<open>b1.jpg\<close> (index 1) has the best score 0.3 and its own index is used, and
  \<open>b3.jpg\<close> (index 3) is beyond the after-collection: neither gets a pair.
\<close>

theorem positional_fallback_witness:
  "snd (step_best ex_lib ex_cfg ex_afters (map (phash ex_lib) ex_befores)
          (map (phash ex_lib) ex_afters) (descriptor ex_lib) (descriptor ex_lib)
          (2, ''b2.jpg'') (ex_state 2)) < 7 / 10 \<and>
   2 < length ex_afters \<and> \<not> used_get (used (ex_state 2)) 2 \<and>
   pairs (match_step ex_lib ex_cfg (7 / 10) ex_afters (map (phash ex_lib) ex_befores)
          (map (phash ex_lib) ex_afters) (descriptor ex_lib) (descriptor ex_lib)
          (2, ''b2.jpg'') (ex_state 2)) =
     pairs (ex_state 2) @ [(''b2.jpg'', ''a2.jpg'', - 1)] \<and>
   used_get (used (match_step ex_lib ex_cfg (7 / 10) ex_afters (map (phash ex_lib) ex_befores)
          (map (phash ex_lib) ex_afters) (descriptor ex_lib) (descriptor ex_lib)
          (2, ''b2.jpg'') (ex_state 2))) 2 \<and>
   snd (step_best ex_lib ex_cfg ex_afters (map (phash ex_lib) ex_befores)
          (map (phash ex_lib) ex_afters) (descriptor ex_lib) (descriptor ex_lib)
          (1, ''b1.jpg'') (ex_state 1)) < 7 / 10 \<and>
   used_get (used (ex_state 1)) 1 \<and>
   pairs (match_step ex_lib ex_cfg (7 / 10) ex_afters (map (phash ex_lib) ex_befores)
          (map (phash ex_lib) ex_afters) (descriptor ex_lib) (descriptor ex_lib)
          (1, ''b1.jpg'') (ex_state 1)) = pairs (ex_state 1) \<and>
   snd (best_unused ex_table ''b1.jpg'' ex_afters {1}) < 7 / 10 \<and>
   best_pairs_step ex_table (7 / 10) ex_afters (1, ''b1.jpg'')
     ([(''b0.jpg'', ''a1.jpg'', 9 / 10)], {1}) = ([(''b0.jpg'', ''a1.jpg'', 9 / 10)], {1})"
proof -
  let ?best = "step_best ex_lib ex_cfg ex_afters (map (phash ex_lib) ex_befores)
      (map (phash ex_lib) ex_afters) (descriptor ex_lib) (descriptor ex_lib)"
  let ?step = "match_step ex_lib ex_cfg (7 / 10) ex_afters (map (phash ex_lib) ex_befores)
      (map (phash ex_lib) ex_afters) (descriptor ex_lib) (descriptor ex_lib)"
  have low2: "snd (?best (2, ''b2.jpg'') (ex_state 2)) < 7 / 10"
    by code_simp
  have free2: "2 < length ex_afters \<and> \<not> used_get (used (ex_state 2)) 2"
    by code_simp
  have a2: "ex_afters ! 2 = ''a2.jpg''"
    by code_simp
  have low1: "snd (?best (1, ''b1.jpg'') (ex_state 1)) < 7 / 10"
    by code_simp
  have used1: "used_get (used (ex_state 1)) 1"
    by code_simp
  have lowt: "snd (best_unused ex_table ''b1.jpg'' ex_afters {1}) < 7 / 10"
    by code_simp
  have "?step (2, ''b2.jpg'') (ex_state 2) =
      (ex_state 2)\<lparr>used := (used (ex_state 2))(2 \<mapsto> True),
        pairs := pairs (ex_state 2) @ [(''b2.jpg'', ex_afters ! 2, - 1)],
        prog := (prog (ex_state 2))\<lparr>unmatched := unmatched (prog (ex_state 2)) + 1,
          done_count := int 2 + 1\<rparr>\<rparr>"
    using positional_fallback [where cfg = ex_cfg and afters = ex_afters
        and be_ph = "map (phash ex_lib) ex_befores" and af_ph = "map (phash ex_lib) ex_afters"
        and idx = 2 and st = "ex_state 2" and lib = ex_lib and be_desc = "descriptor ex_lib"
        and af_desc = "descriptor ex_lib" and b = "''b2.jpg''" and threshold = "7 / 10",
        THEN conjunct1]
      low2 free2 by simp
  then have p2: "pairs (?step (2, ''b2.jpg'') (ex_state 2)) =
        pairs (ex_state 2) @ [(''b2.jpg'', ''a2.jpg'', - 1)]"
    and u2: "used_get (used (?step (2, ''b2.jpg'') (ex_state 2))) 2"
    by (simp_all add: a2 used_get_def)
  have "?step (1, ''b1.jpg'') (ex_state 1) =
      (ex_state 1)\<lparr>prog := (prog (ex_state 1))\<lparr>done_count := int 1 + 1\<rparr>\<rparr>"
    using positional_fallback [where cfg = ex_cfg and afters = ex_afters
        and be_ph = "map (phash ex_lib) ex_befores" and af_ph = "map (phash ex_lib) ex_afters"
        and idx = 1 and st = "ex_state 1" and lib = ex_lib and be_desc = "descriptor ex_lib"
        and af_desc = "descriptor ex_lib" and b = "''b1.jpg''" and threshold = "7 / 10",
        THEN conjunct1]
      low1 used1 by simp
  then have p1: "pairs (?step (1, ''b1.jpg'') (ex_state 1)) = pairs (ex_state 1)"
    by simp
  have t: "best_pairs_step ex_table (7 / 10) ex_afters (1, ''b1.jpg'')
      ([(''b0.jpg'', ''a1.jpg'', 9 / 10)], {1}) = ([(''b0.jpg'', ''a1.jpg'', 9 / 10)], {1})"
    using positional_fallback [where afters = ex_afters and U = "{1}"
        and tlib = ex_table and b = "''b1.jpg''" and threshold = "7 / 10" and idx = 1
        and ps = "[(''b0.jpg'', ''a1.jpg'', 9 / 10)]", THEN conjunct2]
      lowt by simp
  show ?thesis
    using low2 free2 p2 u2 low1 used1 p1 lowt t by blast
qed

text \<open>
  Claim C5. One pass through the body of the loop adds a pair counted as matched, whose
  score is at least the threshold, or a pair counted as unmatched, whose score is the
  sentinel \<open>-1\<close>, or no pair. So in the pairing of a job every score is the sentinel or at
  least the threshold; the pairs counted as matched are those whose score is not the
  sentinel, and the pairs counted as unmatched are those whose score is the sentinel.
\<close>

theorem confident_at_least_threshold_fallback_sentinel:
  "((\<exists>bj s. threshold \<le> s \<and>
       match_step lib cfg threshold afters be_ph af_ph be_desc af_desc (idx, b) st =
         st\<lparr>used := (used st)(bj \<mapsto> True), pairs := pairs st @ [(b, afters ! bj, s)],
            prog := (prog st)\<lparr>matched := matched (prog st) + 1, done_count := int idx + 1\<rparr>\<rparr>) \<or>
    match_step lib cfg threshold afters be_ph af_ph be_desc af_desc (idx, b) st =
      st\<lparr>used := (used st)(idx \<mapsto> True), pairs := pairs st @ [(b, afters ! idx, - 1)],
         prog := (prog st)\<lparr>unmatched := unmatched (prog st) + 1, done_count := int idx + 1\<rparr>\<rparr> \<or>
    match_step lib cfg threshold afters be_ph af_ph be_desc af_desc (idx, b) st =
      st\<lparr>prog := (prog st)\<lparr>done_count := int idx + 1\<rparr>\<rparr>) \<and>
   (\<forall>(b', a, s) \<in> set (pairs (match_loop lib cfg threshold befores afters be_ph af_ph
        be_desc af_desc p)). s = - 1 \<or> threshold \<le> s) \<and>
   matched (prog (match_loop lib cfg threshold befores afters be_ph af_ph be_desc af_desc p)) =
     matched p + int (length (filter (\<lambda>(b', a, s). s \<noteq> - 1)
       (pairs (match_loop lib cfg threshold befores afters be_ph af_ph be_desc af_desc p)))) \<and>
   unmatched (prog (match_loop lib cfg threshold befores afters be_ph af_ph be_desc af_desc p)) =
     unmatched p + int (length (filter (\<lambda>(b', a, s). s = - 1)
       (pairs (match_loop lib cfg threshold befores afters be_ph af_ph be_desc af_desc p))))"
proof -
  let ?st = "match_loop lib cfg threshold befores afters be_ph af_ph be_desc af_desc p"
  have step: "(\<exists>bj s. threshold \<le> s \<and>
       match_step lib cfg threshold afters be_ph af_ph be_desc af_desc (idx, b) st =
         st\<lparr>used := (used st)(bj \<mapsto> True), pairs := pairs st @ [(b, afters ! bj, s)],
            prog := (prog st)\<lparr>matched := matched (prog st) + 1, done_count := int idx + 1\<rparr>\<rparr>) \<or>
    match_step lib cfg threshold afters be_ph af_ph be_desc af_desc (idx, b) st =
      st\<lparr>used := (used st)(idx \<mapsto> True), pairs := pairs st @ [(b, afters ! idx, - 1)],
         prog := (prog st)\<lparr>unmatched := unmatched (prog st) + 1, done_count := int idx + 1\<rparr>\<rparr> \<or>
    match_step lib cfg threshold afters be_ph af_ph be_desc af_desc (idx, b) st =
      st\<lparr>prog := (prog st)\<lparr>done_count := int idx + 1\<rparr>\<rparr>"
    by (cases rule: match_step_cases [of afters st threshold lib cfg be_ph af_ph be_desc af_desc idx b])
      blast+
  have sc: "scored threshold (matched p) (unmatched p) ?st"
    by (rule match_loop_scored)
  have "\<forall>(b', a, s) \<in> set (pairs ?st). s = - 1 \<or> threshold \<le> s"
    using sc unfolding scored_def by fast
  moreover have "matched (prog ?st) =
      matched p + int (length (filter (\<lambda>(b', a, s). s \<noteq> - 1) (pairs ?st)))"
    using sc unfolding scored_def by blast
  moreover have "unmatched (prog ?st) =
      unmatched p + int (length (filter (\<lambda>(b', a, s). s = - 1) (pairs ?st)))"
    using sc unfolding scored_def by blast
  ultimately show ?thesis using step by blast
qed

lemma ex_state_loop:
  "ex_state 4 =
     match_loop ex_lib ex_cfg (7 / 10) ex_befores ex_afters
       (map (phash ex_lib) ex_befores) (map (phash ex_lib) ex_afters)
       (descriptor ex_lib) (descriptor ex_lib) queued"
  by (simp add: ex_state_def match_loop_def ex_befores_def)

theorem confident_at_least_threshold_fallback_sentinel_witness:
  "pairs (ex_state 4) = [(''b0.jpg'', ''a1.jpg'', 9 / 10), (''b2.jpg'', ''a2.jpg'', - 1)] \<and>
   (7 / 10 :: real) \<le> 9 / 10 \<and>
   matched (prog (ex_state 4)) = 1 \<and> unmatched (prog (ex_state 4)) = 1"
proof -
  have ps: "pairs (ex_state 4) = [(''b0.jpg'', ''a1.jpg'', 9 / 10), (''b2.jpg'', ''a2.jpg'', - 1)]"
    by code_simp
  note t = confident_at_least_threshold_fallback_sentinel [where lib = ex_lib and cfg = ex_cfg
      and threshold = "7 / 10" and befores = ex_befores and afters = ex_afters
      and be_ph = "map (phash ex_lib) ex_befores" and af_ph = "map (phash ex_lib) ex_afters"
      and be_desc = "descriptor ex_lib" and af_desc = "descriptor ex_lib" and p = queued,
      folded ex_state_loop, THEN conjunct2]
  from t have "\<forall>(b', a, s) \<in> set (pairs (ex_state 4)). s = - 1 \<or> 7 / 10 \<le> s"
    by blast
  then have "(7 / 10 :: real) \<le> 9 / 10"
    unfolding ps by simp
  moreover from t have "matched (prog (ex_state 4)) = 1" "unmatched (prog (ex_state 4)) = 1"
    unfolding ps by (simp_all add: queued_def)
  ultimately show ?thesis using ps by blast
qed

text \<open>
  Claim C10. With the threshold 0, the body of the loop for a before-image that is
  processed while some after-image is unused always takes the branch of the confident
  match: it pairs the before-image with an unused after-image, with a score that is not
  negative and may be 0, and counts the pair as matched.
\<close>

theorem zero_threshold_always_confident:
  assumes "length af_ph = length afters" and "j < length afters" and "\<not> used_get (used st) j"
  shows "\<exists>bj s. bj < length afters \<and> \<not> used_get (used st) bj \<and> 0 \<le> s \<and>
     match_step lib cfg 0 afters be_ph af_ph be_desc af_desc (idx, b) st =
       st\<lparr>used := (used st)(bj \<mapsto> True), pairs := pairs st @ [(b, afters ! bj, s)],
          prog := (prog st)\<lparr>matched := matched (prog st) + 1, done_count := int idx + 1\<rparr>\<rparr>"
proof -
  let ?bst = "step_best lib cfg afters be_ph af_ph be_desc af_desc (idx, b) st"
  have "j \<in> set (unused (zip afters af_ph) (used st))"
    using assms by (simp add: set_unused)
  then have "step_cand cfg afters be_ph af_ph (fst (idx, b)) st \<noteq> []"
    unfolding step_cand_def cand_Nil_iff by auto
  then obtain bj where bj: "fst ?bst = Some bj" and nn: "0 \<le> snd ?bst"
    using step_best_Some by blast
  have "bj < length afters \<and> \<not> used_get (used st) bj"
    using step_best_Some_unused [OF bj] .
  moreover have "match_step lib cfg 0 afters be_ph af_ph be_desc af_desc (idx, b) st =
       st\<lparr>used := (used st)(bj \<mapsto> True), pairs := pairs st @ [(b, afters ! bj, snd ?bst)],
          prog := (prog st)\<lparr>matched := matched (prog st) + 1, done_count := int idx + 1\<rparr>\<rparr>"
    using bj nn by (rule match_step_confident)
  ultimately show ?thesis using nn by blast
qed

theorem zero_threshold_always_confident_witness:
  "length (map (phash ex_lib) ex_afters) = length ex_afters \<and>
   0 < length ex_afters \<and> \<not> used_get (used (ex_state 2)) 0 \<and>
   pairs (match_step ex_lib ex_cfg 0 ex_afters (map (phash ex_lib) ex_befores)
          (map (phash ex_lib) ex_afters) (descriptor ex_lib) (descriptor ex_lib)
          (2, ''b2.jpg'') (ex_state 2)) = pairs (ex_state 2) @ [(''b2.jpg'', ''a2.jpg'', 0)] \<and>
   matched (prog (match_step ex_lib ex_cfg 0 ex_afters (map (phash ex_lib) ex_befores)
          (map (phash ex_lib) ex_afters) (descriptor ex_lib) (descriptor ex_lib)
          (2, ''b2.jpg'') (ex_state 2))) = matched (prog (ex_state 2)) + 1"
proof -
  let ?step = "match_step ex_lib ex_cfg 0 ex_afters (map (phash ex_lib) ex_befores)
      (map (phash ex_lib) ex_afters) (descriptor ex_lib) (descriptor ex_lib)"
  have len: "length (map (phash ex_lib) ex_afters) = length ex_afters"
    by simp
  have free: "0 < length ex_afters" "\<not> used_get (used (ex_state 2)) 0"
    by code_simp+
  have ps: "pairs (?step (2, ''b2.jpg'') (ex_state 2)) =
      pairs (ex_state 2) @ [(''b2.jpg'', ''a2.jpg'', 0)]"
    by code_simp
  from zero_threshold_always_confident [OF len free, of ex_lib ex_cfg
      "map (phash ex_lib) ex_befores" "descriptor ex_lib" "descriptor ex_lib" 2 "''b2.jpg''"]
  obtain bj s where "?step (2, ''b2.jpg'') (ex_state 2) =
       (ex_state 2)\<lparr>used := (used (ex_state 2))(bj \<mapsto> True),
          pairs := pairs (ex_state 2) @ [(''b2.jpg'', ex_afters ! bj, s)],
          prog := (prog (ex_state 2))\<lparr>matched := matched (prog (ex_state 2)) + 1,
            done_count := int 2 + 1\<rparr>\<rparr>"
    by blast
  then have "matched (prog (?step (2, ''b2.jpg'') (ex_state 2))) = matched (prog (ex_state 2)) + 1"
    by simp
  then show ?thesis using len free ps by blast
qed



section \<open>Properties of a job\<close>

lemma match_step_total:
  "total (prog (match_step lib cfg threshold afters be_ph af_ph be_desc af_desc ib st)) =
     total (prog st)"
  by (simp add: match_step_def Let_def case_prod_beta)

lemma match_step_done:
  "done_count (prog (match_step lib cfg threshold afters be_ph af_ph be_desc af_desc ib st)) =
     int (fst ib) + 1"
  by (simp add: match_step_def Let_def case_prod_beta)

lemma match_loop_total:
  "total (prog (match_loop lib cfg threshold befores afters be_ph af_ph be_desc af_desc p)) = total p"
  unfolding match_loop_def
  by (rule fold_invariant) (simp_all add: match_step_total)

lemma match_loop_done:
  assumes "befores \<noteq> []"
  shows "done_count (prog (match_loop lib cfg threshold befores afters be_ph af_ph be_desc af_desc p)) =
     int (length befores)"
proof -
  obtain bs b where "befores = bs @ [b]"
    using assms by (cases befores rule: rev_cases) auto
  then show ?thesis
    by (simp add: match_loop_def enumerate_append_eq match_step_done)
qed

lemma match_step_pairs_used:
  assumes "pairs st = pairs st'" and "used st = used st'"
  shows "pairs (match_step lib cfg threshold afters be_ph af_ph be_desc af_desc ib st) =
         pairs (match_step lib cfg threshold afters be_ph af_ph be_desc af_desc ib st') \<and>
         used (match_step lib cfg threshold afters be_ph af_ph be_desc af_desc ib st) =
         used (match_step lib cfg threshold afters be_ph af_ph be_desc af_desc ib st')"
  using assms by (simp add: match_step_def Let_def case_prod_beta)

lemma fold_match_step_pairs_used:
  assumes "pairs st = pairs st'" and "used st = used st'"
  shows "pairs (fold (match_step lib cfg threshold afters be_ph af_ph be_desc af_desc) xs st) =
         pairs (fold (match_step lib cfg threshold afters be_ph af_ph be_desc af_desc) xs st')"
  using assms
proof (induction xs arbitrary: st st')
  case Nil
  then show ?case by simp
next
  case (Cons x xs)
  show ?case
    using match_step_pairs_used [OF Cons.prems, of lib cfg threshold afters be_ph af_ph be_desc af_desc x]
    by (auto intro: Cons.IH)
qed

lemma match_loop_pairs_prog:
  "pairs (match_loop lib cfg threshold befores afters be_ph af_ph be_desc af_desc p) =
   pairs (match_loop lib cfg threshold befores afters be_ph af_ph be_desc af_desc p')"
  unfolding match_loop_def by (rule fold_match_step_pairs_used) simp_all

lemma sentinel_split:
  "length (filter (\<lambda>(b, a, s). s \<noteq> c) xs) + length (filter (\<lambda>(b, a, s). s = c) xs) =
     length xs"
  by (induction xs) auto

lemma match_loop_counts:
  "matched (prog (match_loop lib cfg threshold befores afters be_ph af_ph be_desc af_desc p)) +
   unmatched (prog (match_loop lib cfg threshold befores afters be_ph af_ph be_desc af_desc p)) =
   matched p + unmatched p +
   int (length (pairs (match_loop lib cfg threshold befores afters be_ph af_ph be_desc af_desc p)))"
proof -
  let ?st = "match_loop lib cfg threshold befores afters be_ph af_ph be_desc af_desc p"
  have "scored threshold (matched p) (unmatched p) ?st"
    by (rule match_loop_scored)
  moreover have "length (filter (\<lambda>(b, a, s). s \<noteq> - 1) (pairs ?st)) +
      length (filter (\<lambda>(b, a, s). s = - 1) (pairs ?st)) = length (pairs ?st)"
    by (rule sentinel_split)
  ultimately show ?thesis unfolding scored_def by linarith
qed

lemma match_step_firsts:
  "map fst (pairs (match_step lib cfg threshold afters be_ph af_ph be_desc af_desc (idx, b) st)) =
     map fst (pairs st) \<or>
   map fst (pairs (match_step lib cfg threshold afters be_ph af_ph be_desc af_desc (idx, b) st)) =
     map fst (pairs st) @ [b]"
  by (cases rule: match_step_cases [of afters st threshold lib cfg be_ph af_ph be_desc af_desc idx b])
    simp_all

lemma fold_match_step_subseq:
  "subseq (map fst (pairs (fold (match_step lib cfg threshold afters be_ph af_ph be_desc af_desc) xs st)))
     (map fst (pairs st) @ map snd xs)"
proof (induction xs arbitrary: st)
  case Nil
  then show ?case by simp
next
  case (Cons x xs)
  obtain idx b where x: "x = (idx, b)" by (cases x)
  let ?st = "match_step lib cfg threshold afters be_ph af_ph be_desc af_desc (idx, b) st"
  have "subseq (map fst (pairs ?st)) (map fst (pairs st) @ [b])"
    using match_step_firsts [of lib cfg threshold afters be_ph af_ph be_desc af_desc idx b st]
    by auto
  then have "subseq (map fst (pairs ?st) @ map snd xs) ((map fst (pairs st) @ [b]) @ map snd xs)"
    by (rule list_emb_append_mono) simp
  with Cons.IH [of ?st] show ?case
    unfolding x by (auto intro: subseq_order.trans)
qed

lemma match_loop_subseq:
  "subseq (map fst (pairs (match_loop lib cfg threshold befores afters be_ph af_ph be_desc af_desc p)))
     befores"
  using fold_match_step_subseq [of lib cfg threshold afters be_ph af_ph be_desc af_desc
      "enumerate 0 befores" "\<lparr>pairs = [], used = Map.empty, prog = p\<rparr>"]
  by (simp add: match_loop_def)

lemma subseq_rest:
  assumes "subseq xs ys" and "distinct ys"
  shows "length (filter (\<lambda>y. y \<notin> set xs) ys) + length xs = length ys"
  using assms
proof (induction rule: list_emb.induct)
  case (list_emb_Nil ys)
  then show ?case by simp
next
  case (list_emb_Cons xs ys y)
  then have "y \<notin> set xs"
    by (auto dest: list_emb_set)
  then show ?case using list_emb_Cons by simp
next
  case (list_emb_Cons2 x y xs ys)
  then have "filter (\<lambda>z. z \<notin> set (x # xs)) ys = filter (\<lambda>z. z \<notin> set xs) ys"
    by (auto intro: filter_cong)
  then show ?case using list_emb_Cons2 by simp
qed

lemma pages_loop_frame:
  "fst (pages_loop lib ps idx pg p) = p\<lparr>pages := pages (fst (pages_loop lib ps idx pg p))\<rparr>"
proof (induction lib ps idx pg p rule: pages_loop.induct)
  case (1 lib ps idx pg p)
  show ?case
  proof (cases "idx < length ps")
    case True
    show ?thesis
    proof (cases "next_page_exn lib ps idx")
      case None
      have "pages_loop lib ps idx pg p = pages_loop lib ps (idx + 4) (pg + 1) (p\<lparr>pages := pg + 1\<rparr>)"
        using True None by (simp add: pages_loop.simps [of lib ps idx])
      moreover have "fst (pages_loop lib ps (idx + 4) (pg + 1) (p\<lparr>pages := pg + 1\<rparr>)) =
          (p\<lparr>pages := pg + 1\<rparr>)\<lparr>pages :=
             pages (fst (pages_loop lib ps (idx + 4) (pg + 1) (p\<lparr>pages := pg + 1\<rparr>)))\<rparr>"
        using 1 [OF True None] .
      ultimately show ?thesis by simp
    next
      case (Some e)
      then show ?thesis using True by (simp add: pages_loop.simps [of lib ps idx])
    qed
  next
    case False
    then show ?thesis by (simp add: pages_loop.simps [of lib ps idx])
  qed
qed

lemma render_pages_frame:
  "fst (render_pages lib ps p) = p\<lparr>pages := pages (fst (render_pages lib ps p))\<rparr>"
  unfolding render_pages_def using pages_loop_frame [of lib ps 4 1 p] by simp

lemma render_pages_fields:
  "total (fst (render_pages lib ps p)) = total p"
  "done_count (fst (render_pages lib ps p)) = done_count p"
  "matched (fst (render_pages lib ps p)) = matched p"
  "unmatched (fst (render_pages lib ps p)) = unmatched p"
  by (subst render_pages_frame, simp)+


text \<open>
  When \<open>build_report\<close> returns, the collections were not empty and it has written the
  dictionary that the matching loop left, the pages and the final state.
\<close>

lemma build_report_returns:
  assumes "build_report lib cfg input_root out_path threshold p = (r, None)"
  shows "load_images lib (pjoin lib input_root ''before'') \<noteq> [] \<and>
     load_images lib (pjoin lib input_root ''after'') \<noteq> [] \<and>
     (\<exists>p2. matched p2 = 0 \<and> unmatched p2 = 0 \<and>
        total p2 = int (length (load_images lib (pjoin lib input_root ''before''))) \<and>
        r = (fst (render_pages lib
           (pairs (match_loop lib cfg threshold
              (load_images lib (pjoin lib input_root ''before''))
              (load_images lib (pjoin lib input_root ''after''))
              (map (phash lib) (load_images lib (pjoin lib input_root ''before'')))
              (map (phash lib) (load_images lib (pjoin lib input_root ''after'')))
              (descriptor lib) (descriptor lib) p2))
           (prog (match_loop lib cfg threshold
              (load_images lib (pjoin lib input_root ''before''))
              (load_images lib (pjoin lib input_root ''after''))
              (map (phash lib) (load_images lib (pjoin lib input_root ''before'')))
              (map (phash lib) (load_images lib (pjoin lib input_root ''after'')))
              (descriptor lib) (descriptor lib) p2))))
          \<lparr>state := ''done'', download := Some out_path\<rparr>)"
proof -
  let ?bs = "load_images lib (pjoin lib input_root ''before'')"
  let ?as = "load_images lib (pjoin lib input_root ''after'')"
  let ?p2 = "p\<lparr>total := int (length ?bs), state := ''preprocess'', done_count := 0,
        before := int (length ?bs), after := int (length ?as),
        state := ''matching'', done_count := 0, matched := 0, unmatched := 0\<rparr>"
  have ne: "?bs \<noteq> [] \<and> ?as \<noteq> []"
    using assms by (auto simp: build_report_def Let_def split: if_splits)
  have "matched ?p2 = 0 \<and> unmatched ?p2 = 0 \<and> total ?p2 = int (length ?bs) \<and>
      r = (fst (render_pages lib
           (pairs (match_loop lib cfg threshold ?bs ?as (map (phash lib) ?bs) (map (phash lib) ?as)
              (descriptor lib) (descriptor lib) ?p2))
           (prog (match_loop lib cfg threshold ?bs ?as (map (phash lib) ?bs) (map (phash lib) ?as)
              (descriptor lib) (descriptor lib) ?p2))))
          \<lparr>state := ''done'', download := Some out_path\<rparr>"
    using assms ne
    by (auto simp: build_report_def Let_def split: option.splits prod.splits)
  then show ?thesis using ne by blast
qed


text \<open>A job is in the state \<open>done\<close> only when \<open>build_report\<close> has returned.\<close>

lemma run_job_done:
  assumes "state (job_rec (run_job lib cfg a j)) = ''done''"
  shows "job_befores lib cfg a \<noteq> [] \<and> job_afters lib cfg a \<noteq> [] \<and>
     (\<exists>p2 out_path. matched p2 = 0 \<and> unmatched p2 = 0 \<and>
        total p2 = int (length (job_befores lib cfg a)) \<and>
        job_rec (run_job lib cfg a j) =
          (fst (render_pages lib
             (pairs (match_loop lib cfg (a_threshold a) (job_befores lib cfg a) (job_afters lib cfg a)
                (map (phash lib) (job_befores lib cfg a)) (map (phash lib) (job_afters lib cfg a))
                (descriptor lib) (descriptor lib) p2))
             (prog (match_loop lib cfg (a_threshold a) (job_befores lib cfg a) (job_afters lib cfg a)
                (map (phash lib) (job_befores lib cfg a)) (map (phash lib) (job_afters lib cfg a))
                (descriptor lib) (descriptor lib) p2))))
            \<lparr>state := ''done'', download := Some out_path\<rparr> \<and>
        job_queue (run_job lib cfg a j) =
          job_queue j @ [(job_rec j)\<lparr>state := ''starting'', done_count := 0, total := 0\<rparr>,
                         job_rec (run_job lib cfg a j)])"
proof -
  let ?root = "pjoin lib (pjoin lib (pjoin lib (DATA_ROOT cfg) (a_month a)) (a_site a)) (a_task a)"
  let ?out = "pjoin lib REPORT_ROOT (a_month a @ ''_'' @ a_site a @ ''_'' @
            (if a_task a = ''grass_cutting'' then ''grass_cutting'' else ''drainage'') @ ''.docx'')"
  let ?p0 = "(job_rec j)\<lparr>state := ''starting'', done_count := 0, total := 0\<rparr>"
  obtain r exn where br: "build_report lib cfg ?root ?out (a_threshold a) ?p0 = (r, exn)"
    by (cases "build_report lib cfg ?root ?out (a_threshold a) ?p0")
  have rj: "run_job lib cfg a j =
      (case exn of
         None \<Rightarrow> j\<lparr>job_rec := r, job_queue := job_queue j @ [?p0, r]\<rparr>
       | Some e \<Rightarrow> j\<lparr>job_rec := r\<lparr>state := ''error'', error := Some e\<rparr>,
                    job_queue := job_queue j @ [?p0, r\<lparr>state := ''error'', error := Some e\<rparr>]\<rparr>)"
    using br by (simp add: run_job_def push_def Let_def split: option.splits)
  have none: "exn = None"
  proof (cases exn)
    case None
    then show ?thesis .
  next
    case (Some e)
    then have "state (job_rec (run_job lib cfg a j)) = ''error''"
      using rj by simp
    then show ?thesis using assms by simp
  qed
  have rec: "job_rec (run_job lib cfg a j) = r"
    and que: "job_queue (run_job lib cfg a j) = job_queue j @ [?p0, r]"
    using rj none by simp_all
  from build_report_returns [OF br [unfolded none]]
  show ?thesis
    unfolding rec que job_befores_def job_afters_def by blast
qed

lemma start_accepts:
  assumes "py_strip (form_get form ''month'' []) \<noteq> []"
    and "py_strip (form_get form ''site'' []) \<noteq> []"
    and "py_float (form_get form ''threshold'' ''0.70'') = Some thr"
  shows "start py_strip py_float new_id form s =
       (Json_ok new_id,
        s\<lparr>jobs := (jobs s)(new_id \<mapsto> \<lparr>job_rec = queued, job_queue = []\<rparr>),
          threads := threads s @
            [\<lparr>a_job_id = new_id,
              a_month = py_strip (form_get form ''month'' []),
              a_site = py_strip (form_get form ''site'' []),
              a_task = py_strip (form_get form ''task'' ''grass_cutting''),
              a_company = py_strip (form_get form ''company'' ''HW UNGGUL (901587-V)''),
              a_zone = py_strip (form_get form ''zone''
                (py_strip (form_get form ''site'' []) @ '' ZONE'')),
              a_title = py_strip (form_get form ''title''
                (if py_strip (form_get form ''task'' ''grass_cutting'') = ''grass_cutting''
                 then ''1. Grass Cutting'' else ''2. Drainage Cleaning'')),
              a_threshold = thr\<rparr>]\<rparr>)"
  using assms by (simp add: start_def Let_def)

text \<open>
  In the worked job with a before-image that PIL cannot open, the exception of
  \<open>phash\<close> ends \<open>build_report\<close> and the job is left in the state \<open>error\<close>.
\<close>

lemma corrupt_image_ends_in_error:
  "state (job_rec (run_job ex_corrupt ex_cfg ex_args ex_job)) = ''error'' \<and>
   error (job_rec (run_job ex_corrupt ex_cfg ex_args ex_job)) = Some ''cannot identify image file''"
  by code_simp

section \<open>Claims about a job\<close>




text \<open>
  Claim C7, as the code has it. \<open>start\<close> compares the threshold with nothing: whatever
  number the text parses to, inside or outside the range from 0 to 1, a submission with a
  month and a site is answered with \<open>ok: True\<close>, its job is created in the state
  \<open>queued\<close> and its worker is started with that number.
\<close>

theorem threshold_not_validated:
  assumes "py_strip (form_get form ''month'' []) \<noteq> []"
    and "py_strip (form_get form ''site'' []) \<noteq> []"
    and "py_float (form_get form ''threshold'' ''0.70'') = Some thr"
  shows "fst (start py_strip py_float new_id form s) = Json_ok new_id \<and>
     jobs (snd (start py_strip py_float new_id form s)) new_id =
       Some \<lparr>job_rec = queued, job_queue = []\<rparr> \<and>
     map a_job_id (threads (snd (start py_strip py_float new_id form s))) =
       map a_job_id (threads s) @ [new_id] \<and>
     map a_threshold (threads (snd (start py_strip py_float new_id form s))) =
       map a_threshold (threads s) @ [thr]"
  using assms by (simp add: start_accepts)

theorem threshold_not_validated_witness:
  "ex_strip (form_get (ex_form ''1.1'') ''month'' []) \<noteq> [] \<and>
   ex_strip (form_get (ex_form ''1.1'') ''site'' []) \<noteq> [] \<and>
   ex_float (form_get (ex_form ''1.1'') ''threshold'' ''0.70'') = Some (11 / 10) \<and>
   \<not> (11 / 10 :: real) \<le> 1 \<and>
   fst (start ex_strip ex_float ''job1'' (ex_form ''1.1'') ex_server) = Json_ok ''job1'' \<and>
   map a_threshold (threads (snd (start ex_strip ex_float ''job1'' (ex_form ''1.1'') ex_server))) =
     [11 / 10]"
proof -
  have f: "ex_strip (form_get (ex_form ''1.1'') ''month'' []) \<noteq> []"
    "ex_strip (form_get (ex_form ''1.1'') ''site'' []) \<noteq> []"
    "ex_float (form_get (ex_form ''1.1'') ''threshold'' ''0.70'') = Some (11 / 10)"
    by code_simp+
  have t0: "threads ex_server = []"
    by (simp add: ex_server_def)
  note t = threshold_not_validated [where py_strip = ex_strip and py_float = ex_float
      and form = "ex_form ''1.1''" and thr = "11 / 10" and new_id = "''job1''"
      and s = ex_server, OF f]
  from t have "fst (start ex_strip ex_float ''job1'' (ex_form ''1.1'') ex_server) = Json_ok ''job1''"
    and "map a_threshold
        (threads (snd (start ex_strip ex_float ''job1'' (ex_form ''1.1'') ex_server))) = [11 / 10]"
    unfolding t0 by simp_all
  then show ?thesis using f by simp
qed

text \<open>
  Claim C7 as it is written fails: the thresholds 1.1 and -0.1 are accepted, their
  workers are started with them, and in the worked job, where no library raises an
  exception, the jobs end in the state \<open>done\<close> without an error text.
\<close>

theorem invalid_threshold_counterexample:
  "fst (start ex_strip ex_float ''job1'' (ex_form ''1.1'') ex_server) = Json_ok ''job1'' \<and>
   threads (snd (start ex_strip ex_float ''job1'' (ex_form ''1.1'') ex_server)) =
     [ex_args\<lparr>a_threshold := 11 / 10\<rparr>] \<and>
   state (job_rec (run_job ex_lib ex_cfg (ex_args\<lparr>a_threshold := 11 / 10\<rparr>) ex_job)) = ''done'' \<and>
   error (job_rec (run_job ex_lib ex_cfg (ex_args\<lparr>a_threshold := 11 / 10\<rparr>) ex_job)) = None \<and>
   fst (start ex_strip ex_float ''job1'' (ex_form ''-0.1'') ex_server) = Json_ok ''job1'' \<and>
   threads (snd (start ex_strip ex_float ''job1'' (ex_form ''-0.1'') ex_server)) =
     [ex_args\<lparr>a_threshold := - 1 / 10\<rparr>] \<and>
   state (job_rec (run_job ex_lib ex_cfg (ex_args\<lparr>a_threshold := - 1 / 10\<rparr>) ex_job)) = ''done'' \<and>
   error (job_rec (run_job ex_lib ex_cfg (ex_args\<lparr>a_threshold := - 1 / 10\<rparr>) ex_job)) = None"
  by code_simp

text \<open>
  Claim C8, as the code has it. A before-image that is skipped gets no pair and no
  counter: when a job ends in the state \<open>done\<close>, its progress dictionary, which is also
  its last message, holds the number of before-images as \<open>total\<close> and \<open>done\<close> and the
  numbers of confident and of fallback pairs as \<open>matched\<close> and \<open>unmatched\<close>. The number
  of before-images left unpaired is stored nowhere; it is the difference
  \<open>total - matched - unmatched\<close>.
\<close>

theorem unpaired_count_is_a_difference:
  assumes "state (job_rec (run_job lib cfg a j)) = ''done''"
  shows "last (job_queue (run_job lib cfg a j)) = job_rec (run_job lib cfg a j) \<and>
     total (job_rec (run_job lib cfg a j)) = int (length (job_befores lib cfg a)) \<and>
     done_count (job_rec (run_job lib cfg a j)) = int (length (job_befores lib cfg a)) \<and>
     matched (job_rec (run_job lib cfg a j)) + unmatched (job_rec (run_job lib cfg a j)) =
       int (length (job_pairs lib cfg a)) \<and>
     (distinct (job_befores lib cfg a) \<longrightarrow>
        int (length (unpaired (job_befores lib cfg a) (job_pairs lib cfg a))) =
          total (job_rec (run_job lib cfg a j)) - matched (job_rec (run_job lib cfg a j)) -
          unmatched (job_rec (run_job lib cfg a j)))"
proof -
  let ?bs = "job_befores lib cfg a"
  let ?loop = "match_loop lib cfg (a_threshold a) ?bs (job_afters lib cfg a)
      (map (phash lib) ?bs) (map (phash lib) (job_afters lib cfg a))
      (descriptor lib) (descriptor lib)"
  let ?r = "job_rec (run_job lib cfg a j)"
  from run_job_done [OF assms]
  obtain p2 out_path where ne: "?bs \<noteq> []"
    and p2: "matched p2 = 0" "unmatched p2 = 0" "total p2 = int (length ?bs)"
    and r: "?r = (fst (render_pages lib (pairs (?loop p2)) (prog (?loop p2))))
                   \<lparr>state := ''done'', download := Some out_path\<rparr>"
    and q: "job_queue (run_job lib cfg a j) =
       job_queue j @ [(job_rec j)\<lparr>state := ''starting'', done_count := 0, total := 0\<rparr>, ?r]"
    by blast
  have ps: "pairs (?loop p2) = job_pairs lib cfg a"
    unfolding job_pairs_def by (rule match_loop_pairs_prog)
  have lst: "last (job_queue (run_job lib cfg a j)) = ?r"
    unfolding q by simp
  have tot: "total ?r = int (length ?bs)"
    unfolding r by (simp add: render_pages_fields match_loop_total p2)
  have dn: "done_count ?r = int (length ?bs)"
    unfolding r by (simp add: render_pages_fields match_loop_done [OF ne])
  have "matched (prog (?loop p2)) + unmatched (prog (?loop p2)) =
      matched p2 + unmatched p2 + int (length (pairs (?loop p2)))"
    by (rule match_loop_counts)
  then have cnt: "matched ?r + unmatched ?r = int (length (job_pairs lib cfg a))"
    unfolding r by (simp add: render_pages_fields p2 ps)
  have rest: "int (length (unpaired ?bs (job_pairs lib cfg a))) =
      total ?r - matched ?r - unmatched ?r" if d: "distinct ?bs"
  proof -
    have "subseq (map fst (job_pairs lib cfg a)) ?bs"
      unfolding job_pairs_def by (rule match_loop_subseq)
    from subseq_rest [OF this d]
    have "length (unpaired ?bs (job_pairs lib cfg a)) + length (job_pairs lib cfg a) = length ?bs"
      by (simp add: unpaired_def)
    then show ?thesis using tot cnt by linarith
  qed
  show ?thesis using lst tot dn cnt rest by blast
qed

theorem unpaired_count_is_a_difference_witness:
  "state (job_rec (run_job ex_lib ex_cfg ex_args ex_job)) = ''done'' \<and>
   distinct (job_befores ex_lib ex_cfg ex_args) \<and>
   unpaired (job_befores ex_lib ex_cfg ex_args) (job_pairs ex_lib ex_cfg ex_args) =
     [''b1.jpg'', ''b3.jpg''] \<and>
   total (job_rec (run_job ex_lib ex_cfg ex_args ex_job)) -
     matched (job_rec (run_job ex_lib ex_cfg ex_args ex_job)) -
     unmatched (job_rec (run_job ex_lib ex_cfg ex_args ex_job)) = 2"
proof -
  have dn: "state (job_rec (run_job ex_lib ex_cfg ex_args ex_job)) = ''done''"
    by code_simp
  have d: "distinct (job_befores ex_lib ex_cfg ex_args)"
    by code_simp
  have u: "unpaired (job_befores ex_lib ex_cfg ex_args) (job_pairs ex_lib ex_cfg ex_args) =
      [''b1.jpg'', ''b3.jpg'']"
    by code_simp
  from unpaired_count_is_a_difference [OF dn] d
  have "int (length (unpaired (job_befores ex_lib ex_cfg ex_args) (job_pairs ex_lib ex_cfg ex_args))) =
      total (job_rec (run_job ex_lib ex_cfg ex_args ex_job)) -
      matched (job_rec (run_job ex_lib ex_cfg ex_args ex_job)) -
      unmatched (job_rec (run_job ex_lib ex_cfg ex_args ex_job))"
    by blast
  then have "total (job_rec (run_job ex_lib ex_cfg ex_args ex_job)) -
      matched (job_rec (run_job ex_lib ex_cfg ex_args ex_job)) -
      unmatched (job_rec (run_job ex_lib ex_cfg ex_args ex_job)) = 2"
    unfolding u by simp
  then show ?thesis using dn d u by blast
qed

text \<open>
  Claim C8 as it is written fails: in the worked job, which ends in the state \<open>done\<close>,
  two before-images are left unpaired, and the number 2 is no entry of the final progress
  dictionary nor of any message of the job.
\<close>

theorem unpaired_count_reported_counterexample:
  "state (job_rec (run_job ex_lib ex_cfg ex_args ex_job)) = ''done'' \<and>
   int (length (unpaired (job_befores ex_lib ex_cfg ex_args) (job_pairs ex_lib ex_cfg ex_args))) = 2 \<and>
   counters (job_rec (run_job ex_lib ex_cfg ex_args ex_job)) = [4, 4, 1, 1, 4, 3, 0] \<and>
   int (length (unpaired (job_befores ex_lib ex_cfg ex_args) (job_pairs ex_lib ex_cfg ex_args)))
     \<notin> set (counters (job_rec (run_job ex_lib ex_cfg ex_args ex_job))) \<and>
   map counters (job_queue (run_job ex_lib ex_cfg ex_args ex_job)) =
     [[0, 0, 0, 0, 0, 0, 0], [4, 4, 1, 1, 4, 3, 0]]"
  by code_simp

section \<open>Properties of the progress channel\<close>

lemma puts_append: "puts (xs @ ys) = puts xs @ puts ys"
  by (induction xs rule: puts.induct) simp_all

lemma observers_append: "observers (xs @ ys) = observers xs @ observers ys"
  by (induction xs rule: observers.induct) simp_all

lemma datas_append: "datas (xs @ ys) = datas xs @ datas ys"
  by (induction xs rule: datas.induct) simp_all

lemma sse_run_snoc: "sse_run (sched @ [a]) = sse_step a (sse_run sched)"
  by (simp add: sse_run_def)

lemma chan_inv_init: "chan_inv [] (sse_run []) []"
  by (simp add: chan_inv_def sse_run_def)

lemma chan_inv_put:
  assumes "chan_inv sched c del"
  shows "chan_inv (sched @ [Put m]) (sse_step (Put m) c) del"
  using assms by (simp add: chan_inv_def puts_append observers_append)

lemma sum_same_data:
  assumes "finite K" and "\<And>i. i \<in> K \<Longrightarrow> g i = f i" and "g k = {#}"
  shows "(\<Sum>i\<in>insert k K. g i) = (\<Sum>i\<in>K. f i :: 'a multiset)"
proof (cases "k \<in> K")
  case True
  then show ?thesis using assms(2) by (simp add: insert_absorb)
next
  case False
  then show ?thesis using assms by simp
qed

lemma chan_inv_ping:
  assumes "chan_inv sched c del" and "sent c k = []"
  shows "chan_inv (sched @ [Next k]) (sse_step (Next k) c) del"
proof -
  let ?c = "c\<lparr>sent := (sent c)(k := [Ping])\<rparr>"
  have same: "datas (sent ?c i) = datas (sent c i)" for i
    using assms(2) by simp
  have sum: "(\<Sum>i\<in>insert k (set (observers sched)). mset (datas (sent ?c i))) = mset del"
  proof -
    have "(\<Sum>i\<in>insert k (set (observers sched)). mset (datas (sent ?c i))) =
          (\<Sum>i\<in>set (observers sched). mset (datas (sent c i)))"
    proof (rule sum_same_data)
      show "finite (set (observers sched))" by simp
      show "mset (datas (sent ?c i)) = mset (datas (sent c i))" for i
        by (simp only: same)
      show "mset (datas (sent ?c k)) = {#}"
        by simp
    qed
    then show ?thesis using assms(1) by (simp add: chan_inv_def)
  qed
  have sub: "subseq (datas (sent ?c i)) del" for i
    unfolding same using assms(1) by (simp add: chan_inv_def)
  have none: "sent ?c i = []" if "i \<notin> insert k (set (observers sched))" for i
    using that assms(1) by (simp add: chan_inv_def)
  have pt: "puts (sched @ [Next k]) = del @ chan_queue ?c"
    using assms(1) by (simp add: chan_inv_def puts_append)
  have "chan_inv (sched @ [Next k]) ?c del"
    unfolding chan_inv_def using pt sum sub none
    by (simp add: observers_append del: fun_upd_apply)
  then show ?thesis using assms(2) by simp
qed

lemma chan_inv_wait:
  assumes "chan_inv sched c del" and "sent c k \<noteq> []" and "chan_queue c = []"
  shows "chan_inv (sched @ [Next k]) (sse_step (Next k) c) del"
proof -
  have "k \<in> set (observers sched)"
    using assms(1,2) unfolding chan_inv_def by blast
  then have "insert k (set (observers sched)) = set (observers sched)"
    by auto
  then show ?thesis
    using assms unfolding chan_inv_def by (simp add: puts_append observers_append)
qed

lemma chan_inv_get:
  assumes "chan_inv sched c del" and "sent c k \<noteq> []" and "chan_queue c = m # q"
  shows "chan_inv (sched @ [Next k]) (sse_step (Next k) c) (del @ [m])"
proof -
  let ?K = "set (observers sched)"
  let ?c = "c\<lparr>chan_queue := q, sent := (sent c)(k := sent c k @ [Data m])\<rparr>"
  have k: "k \<in> ?K"
    using assms(1,2) unfolding chan_inv_def by blast
  then have K: "insert k ?K = ?K" by auto
  have old: "(\<Sum>i\<in>?K. mset (datas (sent c i))) = mset del"
    and sub: "\<And>i. subseq (datas (sent c i)) del"
    and pt: "puts sched = del @ m # q"
    and none: "\<And>i. i \<notin> ?K \<Longrightarrow> sent c i = []"
    using assms(1,3) unfolding chan_inv_def by auto
  have "(\<Sum>i\<in>?K. mset (datas (sent ?c i))) =
        mset (datas (sent ?c k)) + (\<Sum>i\<in>?K - {k}. mset (datas (sent ?c i)))"
    using k by (simp add: sum.remove del: fun_upd_apply)
  also have "(\<Sum>i\<in>?K - {k}. mset (datas (sent ?c i))) = (\<Sum>i\<in>?K - {k}. mset (datas (sent c i)))"
    by (rule sum.cong) auto
  also have "mset (datas (sent ?c k)) = mset (datas (sent c k)) + {#m#}"
    by (simp add: datas_append)
  finally have "(\<Sum>i\<in>?K. mset (datas (sent ?c i))) =
        (mset (datas (sent c k)) + (\<Sum>i\<in>?K - {k}. mset (datas (sent c i)))) + {#m#}"
    by (simp add: ac_simps)
  also have "mset (datas (sent c k)) + (\<Sum>i\<in>?K - {k}. mset (datas (sent c i))) =
        (\<Sum>i\<in>?K. mset (datas (sent c i)))"
    using k by (simp add: sum.remove)
  finally have sum: "(\<Sum>i\<in>?K. mset (datas (sent ?c i))) = mset (del @ [m])"
    using old by simp
  have sub': "subseq (datas (sent ?c i)) (del @ [m])" for i
  proof (cases "i = k")
    case True
    have "subseq (datas (sent c k) @ [m]) (del @ [m])"
      using sub [of k] by (rule list_emb_append_mono) simp
    then show ?thesis using True by (simp add: datas_append)
  next
    case False
    have "subseq (datas (sent c i) @ []) (del @ [m])"
      using sub [of i] by (rule list_emb_append_mono) simp
    then show ?thesis using False by simp
  qed
  have none': "sent ?c i = []" if "i \<notin> ?K" for i
    using that none k by auto
  have "chan_inv (sched @ [Next k]) ?c (del @ [m])"
    unfolding chan_inv_def
    using pt sum sub' none' by (simp add: puts_append observers_append K del: fun_upd_apply)
  then show ?thesis using assms(2,3) by simp
qed

lemma chan_inv_run: "\<exists>del. chan_inv sched (sse_run sched) del"
proof (induction sched rule: rev_induct)
  case Nil
  show ?case using chan_inv_init by blast
next
  case (snoc a sched)
  then obtain del where inv: "chan_inv sched (sse_run sched) del" by blast
  show ?case
  proof (cases a)
    case (Put m)
    then show ?thesis using chan_inv_put [OF inv] by (auto simp: sse_run_snoc)
  next
    case (Next k)
    show ?thesis
    proof (cases "sent (sse_run sched) k = []")
      case True
      then show ?thesis using chan_inv_ping [OF inv] Next by (auto simp: sse_run_snoc)
    next
      case False
      show ?thesis
      proof (cases "chan_queue (sse_run sched)")
        case Nil
        then show ?thesis using chan_inv_wait [OF inv False] Next by (auto simp: sse_run_snoc)
      next
        case (Cons m q)
        then show ?thesis using chan_inv_get [OF inv False] Next by (auto simp: sse_run_snoc)
      qed
    qed
  qed
qed

section \<open>Claims about the progress channel\<close>

text \<open>
  Claim C9, as the code has it. All observers of a job read the one queue of the job, and
  \<open>q.get()\<close> removes what it returns. So for every schedule of pushes and observer
  steps: the messages sent to the observers together with the messages still in the
  queue are exactly the messages pushed, each once, so that a message reaches at most one
  observer and none is lost; the messages pushed are those taken followed by the queue;
  every observer is sent a subsequence of the messages pushed, in the order of their
  emission; and an observer that has taken no step has been sent nothing.
\<close>

theorem events_taken_once_in_order:
  "(\<Sum>k\<in>set (observers sched). mset (datas (sent (sse_run sched) k))) +
     mset (chan_queue (sse_run sched)) = mset (puts sched) \<and>
   (\<exists>del. puts sched = del @ chan_queue (sse_run sched)) \<and>
   (\<forall>k. subseq (datas (sent (sse_run sched) k)) (puts sched)) \<and>
   (\<forall>k. k \<notin> set (observers sched) \<longrightarrow> sent (sse_run sched) k = [])"
proof -
  obtain del where inv: "chan_inv sched (sse_run sched) del"
    using chan_inv_run by blast
  then have pt: "puts sched = del @ chan_queue (sse_run sched)"
    and sum: "(\<Sum>k\<in>set (observers sched). mset (datas (sent (sse_run sched) k))) = mset del"
    and sub: "\<And>k. subseq (datas (sent (sse_run sched) k)) del"
    and none: "\<And>k. k \<notin> set (observers sched) \<Longrightarrow> sent (sse_run sched) k = []"
    unfolding chan_inv_def by auto
  have "(\<Sum>k\<in>set (observers sched). mset (datas (sent (sse_run sched) k))) +
     mset (chan_queue (sse_run sched)) = mset (puts sched)"
    unfolding sum pt by simp
  moreover have "subseq (datas (sent (sse_run sched) k)) (puts sched)" for k
  proof -
    have "subseq (datas (sent (sse_run sched) k) @ []) (del @ chan_queue (sse_run sched))"
      using sub [of k] by (rule list_emb_append_mono) simp
    then show ?thesis unfolding pt by simp
  qed
  ultimately show ?thesis using pt none by blast
qed

theorem events_taken_once_in_order_witness:
  "puts ex_sched = [queued] \<and> chan_queue (sse_run ex_sched) = [] \<and>
   datas (sent (sse_run ex_sched) 0) = [queued] \<and>
   datas (sent (sse_run ex_sched) 1) = [] \<and>
   2 \<notin> set (observers ex_sched) \<and> sent (sse_run ex_sched) 2 = [] \<and>
   subseq (datas (sent (sse_run ex_sched) 0)) [queued]"
proof -
  have p: "puts ex_sched = [queued]"
    by code_simp
  have q: "chan_queue (sse_run ex_sched) = []"
    by code_simp
  have d: "datas (sent (sse_run ex_sched) 0) = [queued]" "datas (sent (sse_run ex_sched) 1) = []"
    by code_simp+
  have o: "2 \<notin> set (observers ex_sched)"
    by code_simp
  note t = events_taken_once_in_order [of ex_sched]
  from t o have "sent (sse_run ex_sched) 2 = []"
    by blast
  moreover from t have "subseq (datas (sent (sse_run ex_sched) 0)) [queued]"
    unfolding p by blast
  ultimately show ?thesis using p q d o by blast
qed

text \<open>
  Claim C9 as it is written fails: observer 1 has taken its ping before the message is
  pushed; observer 0 takes the message from the queue, the queue is empty, and observer 1,
  which then asks for the next message, has been sent the ping only.
\<close>

theorem every_observer_gets_a_copy_counterexample:
  "sent (sse_run (take 2 ex_sched)) 1 = [Ping] \<and> puts (take 2 ex_sched) = [] \<and>
   puts ex_sched = [queued] \<and>
   sent (sse_run ex_sched) 0 = [Ping, Data queued] \<and>
   sent (sse_run ex_sched) 1 = [Ping] \<and>
   chan_queue (sse_run ex_sched) = []"
  by code_simp


end
